theory Spec2Isabelle
  imports Complex_Main "HOL-Library.Sublist" "HOL-Library.Monad_Syntax"
begin

section \<open>The BM25 search index of \<^verbatim>\<open>src/utils/indexer.ts\<close>\<close>

text \<open>
  The development follows \<^verbatim>\<open>src/utils/indexer.ts\<close> function by function. JavaScript
  strings are modelled as \<^typ>\<open>string\<close> restricted to ASCII text: one \<^typ>\<open>char\<close> is one
  code unit, \<^verbatim>\<open>toLowerCase\<close> acts on the letters A to Z, \<^verbatim>\<open>\s\<close> is the six ASCII
  white-space characters and a line terminator is LF or CR. JavaScript numbers that hold
  counts and positions are \<^typ>\<open>nat\<close>; scores and the average document length are
  \<^typ>\<open>real\<close> (rounding of IEEE doubles is not modelled).

  \<^verbatim>\<open>PorterStemmer.stem\<close> belongs to the library \<^verbatim>\<open>natural\<close>, not to this repository:
  it is the parameter \<open>stem\<close> of every function that tokenizes.
\<close>

subsection \<open>Characters\<close>

definition is_upper :: "char \<Rightarrow> bool" where
  "is_upper c = (let n = (of_char c :: nat) in 65 \<le> n \<and> n \<le> 90)"

definition is_lower :: "char \<Rightarrow> bool" where
  "is_lower c = (let n = (of_char c :: nat) in 97 \<le> n \<and> n \<le> 122)"

definition is_digit :: "char \<Rightarrow> bool" where
  "is_digit c = (let n = (of_char c :: nat) in 48 \<le> n \<and> n \<le> 57)"

text \<open>The class \<^verbatim>\<open>[A-Za-z0-9_]\<close>, which is also \<^verbatim>\<open>\w\<close>.\<close>

definition is_word_char :: "char \<Rightarrow> bool" where
  "is_word_char c = (is_upper c \<or> is_lower c \<or> is_digit c \<or> c = CHR ''_'')"

text \<open>\<^verbatim>\<open>\s\<close>: TAB, LF, VT, FF, CR and the space.\<close>

definition is_space :: "char \<Rightarrow> bool" where
  "is_space c = (let n = (of_char c :: nat) in (9 \<le> n \<and> n \<le> 13) \<or> n = 32)"

text \<open>The characters that \<^verbatim>\<open>.\<close> does not match and after which \<^verbatim>\<open>^\<close> matches under the
  flag \<^verbatim>\<open>m\<close>.\<close>

definition is_line_terminator :: "char \<Rightarrow> bool" where
  "is_line_terminator c = (let n = (of_char c :: nat) in n = 10 \<or> n = 13)"

definition lower_char :: "char \<Rightarrow> char" where
  "lower_char c = (if is_upper c then char_of (of_char c + (32 :: nat)) else c)"

definition toLowerCase :: "string \<Rightarrow> string" where
  "toLowerCase s = map lower_char s"

subsection \<open>The tokenizer\<close>

text \<open>
  \<^verbatim>\<open>text.match(TOKEN_RE) || []\<close> with
  \<^verbatim>\<open>TOKEN_RE = /[A-Za-z0-9_]+(?:-[A-Za-z0-9_]+)*/g\<close>: the matches from left to right, each
  as long as possible. \<open>cur\<close> is the match being read; a hyphen continues it only when a
  match is being read and a word character follows.
\<close>

fun scan_TOKEN_RE :: "string \<Rightarrow> string \<Rightarrow> string list" where
  "scan_TOKEN_RE cur [] = (if cur = [] then [] else [cur])"
| "scan_TOKEN_RE cur (c # cs) =
     (if is_word_char c then scan_TOKEN_RE (cur @ [c]) cs
      else if c = CHR ''-'' \<and> cur \<noteq> [] \<and> (case cs of [] \<Rightarrow> False | d # _ \<Rightarrow> is_word_char d)
        then scan_TOKEN_RE (cur @ [c]) cs
      else (if cur = [] then [] else [cur]) @ scan_TOKEN_RE [] cs)"

definition match_TOKEN_RE :: "string \<Rightarrow> string list" where
  "match_TOKEN_RE text = scan_TOKEN_RE [] text"

text \<open>\<^verbatim>\<open>token.split("-")\<close>.\<close>

fun split_on :: "char \<Rightarrow> string \<Rightarrow> string \<Rightarrow> string list" where
  "split_on sep cur [] = [cur]"
| "split_on sep cur (c # cs) =
     (if c = sep then cur # split_on sep [] cs else split_on sep (cur @ [c]) cs)"

text \<open>\<^verbatim>\<open>/[a-z][A-Z]/.test(part)\<close>.\<close>

fun has_camel :: "string \<Rightarrow> bool" where
  "has_camel (c # d # cs) = ((is_lower c \<and> is_upper d) \<or> has_camel (d # cs))"
| "has_camel _ = False"

text \<open>\<^verbatim>\<open>part.split(CAMELCASE_RE)\<close> with \<^verbatim>\<open>CAMELCASE_RE = /(?<=[a-z])(?=[A-Z])/\<close>: a cut
  between every lower-case letter and the upper-case letter after it.\<close>

fun camel_split :: "string \<Rightarrow> string \<Rightarrow> string list" where
  "camel_split cur (c # d # cs) =
     (if is_lower c \<and> is_upper d then (cur @ [c]) # camel_split [] (d # cs)
      else camel_split (cur @ [c]) (d # cs))"
| "camel_split cur [c] = [cur @ [c]]"
| "camel_split cur [] = [cur]"

definition STOP_WORDS :: "string list" where
  "STOP_WORDS = [
    ''a'', ''about'', ''above'', ''after'', ''again'', ''against'', ''all'', ''am'',
    ''an'', ''and'', ''any'', ''are'', ''as'', ''at'', ''be'', ''because'', ''been'',
    ''before'', ''being'', ''below'', ''between'', ''both'', ''but'', ''by'', ''can'',
    ''could'', ''did'', ''do'', ''does'', ''doing'', ''down'', ''during'', ''each'',
    ''few'', ''for'', ''from'', ''further'', ''had'', ''has'', ''have'', ''having'',
    ''he'', ''her'', ''here'', ''hers'', ''herself'', ''him'', ''himself'', ''his'',
    ''how'', ''i'', ''if'', ''in'', ''into'', ''is'', ''it'', ''its'', ''itself'',
    ''just'', ''me'', ''more'', ''most'', ''my'', ''myself'', ''no'', ''nor'', ''not'',
    ''now'', ''of'', ''off'', ''on'', ''once'', ''only'', ''or'', ''other'', ''our'',
    ''ours'', ''ourselves'', ''out'', ''over'', ''own'', ''same'', ''she'', ''should'',
    ''so'', ''some'', ''such'', ''than'', ''that'', ''the'', ''their'', ''theirs'',
    ''them'', ''themselves'', ''then'', ''there'', ''these'', ''they'', ''this'',
    ''those'', ''through'', ''to'', ''too'', ''under'', ''until'', ''up'', ''very'',
    ''was'', ''we'', ''were'', ''what'', ''when'', ''where'', ''which'', ''while'',
    ''who'', ''whom'', ''why'', ''will'', ''with'', ''would'', ''you'', ''your'',
    ''yours'', ''yourself'', ''yourselves'', ''also'', ''come'', ''even'', ''get'',
    ''got'', ''go'', ''going'', ''gone'', ''know'', ''like'', ''make'', ''made'', ''may'',
    ''might'', ''much'', ''must'', ''need'', ''new'', ''one'', ''see'', ''take'',
    ''thing'', ''think'', ''use'', ''used'', ''using'', ''want'', ''way'', ''well'',
    ''work'', ''year'', ''first'', ''last'', ''long'', ''great'', ''little'', ''old'',
    ''right'', ''big'', ''high'', ''small'', ''large'', ''next'', ''early'', ''young'',
    ''important'', ''public'', ''bad'', ''good'']"

definition PRESERVE_TERMS :: "string list" where
  "PRESERVE_TERMS = [
    ''mcp'', ''json'', ''rpc'', ''sse'', ''stdio'', ''http'', ''https'', ''uri'', ''url'',
    ''api'', ''sdk'', ''cli'', ''llm'', ''ai'', ''ml'', ''aws'', ''pydantic'', ''zod'',
    ''typescript'', ''ts'']"

text \<open>The body of the loop over \<open>camelParts\<close>; \<open>tokens\<close> is the array \<^verbatim>\<open>tokens\<close> of
  \<^verbatim>\<open>tokenize\<close>, the one array every branch pushes to.\<close>

definition camel_step :: "(string \<Rightarrow> string) \<Rightarrow> string list \<Rightarrow> string \<Rightarrow> string list" where
  "camel_step stem tokens camelPart =
     (let camelLower = toLowerCase camelPart in
      if camelLower \<noteq> [] \<and> camelLower \<notin> set STOP_WORDS then
        (if camelLower \<in> set PRESERVE_TERMS then tokens @ [camelLower]
         else (let stemmed = stem camelLower in
               if stemmed \<notin> set STOP_WORDS then tokens @ [stemmed] else tokens))
      else tokens)"

text \<open>The body of the loop over \<open>parts\<close>.\<close>

definition part_step :: "(string \<Rightarrow> string) \<Rightarrow> string list \<Rightarrow> string \<Rightarrow> string list" where
  "part_step stem tokens part =
     (let partLower = toLowerCase part in
      if partLower = [] \<or> partLower \<in> set STOP_WORDS then tokens
      else if partLower \<in> set PRESERVE_TERMS then tokens @ [partLower]
      else if has_camel part then
        (let tokens1 = foldl (camel_step stem) tokens (camel_split [] part);
             stemmedOriginal = stem partLower in
         if stemmedOriginal \<notin> set STOP_WORDS \<and> stemmedOriginal \<notin> set tokens1
         then tokens1 @ [stemmedOriginal] else tokens1)
      else (let stemmed = stem partLower in
            if stemmed \<notin> set STOP_WORDS then tokens @ [stemmed] else tokens))"

text \<open>The body of the loop over \<open>matches\<close>.\<close>

definition token_step :: "(string \<Rightarrow> string) \<Rightarrow> string list \<Rightarrow> string \<Rightarrow> string list" where
  "token_step stem tokens token =
     foldl (part_step stem) tokens
       (if CHR ''-'' \<in> set token then split_on (CHR ''-'') [] token else [token])"

definition tokenize :: "(string \<Rightarrow> string) \<Rightarrow> string \<Rightarrow> string list" where
  "tokenize stem text = foldl (token_step stem) [] (match_TOKEN_RE text)"

fun generateBigrams :: "string list \<Rightarrow> string list" where
  "generateBigrams (a # b # rest) = (a @ ''_'' @ b) # generateBigrams (b # rest)"
| "generateBigrams _ = []"

text \<open>
  The library's stemmer returns a word shorter than three characters as it is
  (\<^verbatim>\<open>if (token.length < 3) return token\<close>), and no rule of the Porter algorithm
  applies to such a word. \<open>stem_short\<close> stands for the stemmer in the concrete
  evaluations below, all of which stem only such words.
\<close>

definition stem_short :: "string \<Rightarrow> string" where
  "stem_short w = w"

subsection \<open>Counting occurrences\<close>

text \<open>\<^verbatim>\<open>s.indexOf(t, pos)\<close>: the first position from \<open>pos\<close> (clamped to the length) at
  which \<open>t\<close> starts, \<open>None\<close> for \<open>-1\<close>.\<close>

definition indexOf :: "string \<Rightarrow> string \<Rightarrow> nat \<Rightarrow> nat option" where
  "indexOf s t pos = find (\<lambda>i. prefix t (drop i s)) [min pos (length s) ..< Suc (length s)]"

text \<open>The \<^verbatim>\<open>while\<close> loop of \<^verbatim>\<open>countOccurrences\<close>. It has no bound of its own:
  \<open>None\<close> is the loop that does not return.\<close>

partial_function (option) count_loop :: "string \<Rightarrow> string \<Rightarrow> nat \<Rightarrow> nat \<Rightarrow> nat option" where
  "count_loop lower token count pos =
     (case indexOf lower token pos of
        None \<Rightarrow> Some count
      | Some p \<Rightarrow> count_loop lower token (count + 1) (p + length token))"

declare count_loop.simps [code]

definition countOccurrences :: "string \<Rightarrow> string \<Rightarrow> nat option" where
  "countOccurrences text token = count_loop (toLowerCase text) token 0 0"

subsection \<open>Markdown extraction\<close>

text \<open>
  A pattern is modelled by its match at one position: given whether the position is at
  the start of a line and the text from the position on, it yields capture group 1, the
  whole match and the text after the match.
\<close>

type_synonym regex = "bool \<Rightarrow> string \<Rightarrow> (string \<times> string \<times> string) option"

text \<open>\<^verbatim>\<open>/^#{1,6}\s+(.+)$/gm\<close>: one to six \<^verbatim>\<open>#\<close> at the start of a line; then white space,
  as much as leaves a character of the same line for the group; then the rest of the
  line.\<close>

definition MD_HEADER_RE :: regex where
  "MD_HEADER_RE bol s =
     (if \<not> bol then None
      else let h = length (takeWhile (\<lambda>c. c = CHR ''#'') s) in
        if h < 1 \<or> 6 < h then None
        else let r = drop h s; ws = length (takeWhile is_space r) in
          (case find (\<lambda>w. w < length r \<and> \<not> is_line_terminator (r ! w)) (rev [1 ..< Suc ws]) of
             None \<Rightarrow> None
           | Some w \<Rightarrow>
               let cap = takeWhile (\<lambda>c. \<not> is_line_terminator c) (drop w r)
               in Some (cap, take (h + w + length cap) s, drop (length cap) (drop w r))))"

text \<open>\<^verbatim>\<open>/```[\w]*\n([\s\S]*?)```/g\<close>: an opening fence, word characters, a line feed, and
  the text up to the next fence.\<close>

definition MD_CODE_BLOCK_RE :: regex where
  "MD_CODE_BLOCK_RE bol s =
     (if \<not> prefix ''```'' s then None
      else let r = drop 3 s; lang = takeWhile is_word_char r in
        (case drop (length lang) r of
           [] \<Rightarrow> None
         | c # body \<Rightarrow>
             if c \<noteq> CHR 0x0A then None
             else (case indexOf body ''```'' 0 of
                     None \<Rightarrow> None
                   | Some n \<Rightarrow>
                       Some (take n body, take (length lang + n + 7) s, drop (n + 3) body))))"

text \<open>\<^verbatim>\<open>/`([^`]+)`/g\<close>.\<close>

definition MD_INLINE_CODE_RE :: regex where
  "MD_INLINE_CODE_RE bol s =
     (case s of
        [] \<Rightarrow> None
      | c # r \<Rightarrow>
          if c \<noteq> CHR ''`'' then None
          else let cap = takeWhile (\<lambda>x. x \<noteq> CHR ''`'') r in
            if cap = [] then None
            else (case drop (length cap) r of
                    [] \<Rightarrow> None
                  | _ # rest \<Rightarrow> Some (cap, take (length cap + 2) s, rest)))"

text \<open>\<^verbatim>\<open>/\[([^\]]+)\]\([^)]+\)/g\<close>.\<close>

definition MD_LINK_TEXT_RE :: regex where
  "MD_LINK_TEXT_RE bol s =
     (case s of
        [] \<Rightarrow> None
      | c # r \<Rightarrow>
          if c \<noteq> CHR ''['' then None
          else let cap = takeWhile (\<lambda>x. x \<noteq> CHR '']'') r in
            if cap = [] then None
            else (case drop (length cap) r of
                    _ # p # r2 \<Rightarrow>
                      if p \<noteq> CHR ''('' then None
                      else let target = takeWhile (\<lambda>x. x \<noteq> CHR '')'') r2 in
                        if target = [] then None
                        else (case drop (length target) r2 of
                                [] \<Rightarrow> None
                              | _ # rest \<Rightarrow>
                                  Some (cap, take (length cap + length target + 4) s, rest))
                  | _ \<Rightarrow> None))"

text \<open>
  The loop \<^verbatim>\<open>while ((match = regex.exec(text)) !== null)\<close> from \<^verbatim>\<open>lastIndex = 0\<close>: the
  leftmost match from the current position, \<^verbatim>\<open>match[1] || match[0]\<close> pushed, and on from
  the end of the match. Each of the four patterns consumes at least one character
  (lemmas \<open>MD_HEADER_RE_consumes\<close> and the like), so the test on the lengths always
  succeeds for them (lemma \<open>exec_all_consuming\<close>).
\<close>

function exec_all :: "regex \<Rightarrow> bool \<Rightarrow> string \<Rightarrow> string list" where
  "exec_all re bol s =
     (case re bol s of
        Some (g, m, rest) \<Rightarrow>
          (if length rest < length s
           then (if g = [] then m else g)
                  # exec_all re (m \<noteq> [] \<and> is_line_terminator (last m)) rest
           else [])
      | None \<Rightarrow>
          (case s of [] \<Rightarrow> [] | c # cs \<Rightarrow> exec_all re (is_line_terminator c) cs))"
  by pat_completeness auto
termination
  by (relation "measure (\<lambda>(re, bol, s). length s)") auto

text \<open>\<^verbatim>\<open>matches.join(sep)\<close>.\<close>

fun join_with :: "string \<Rightarrow> string list \<Rightarrow> string" where
  "join_with sep [] = []"
| "join_with sep [x] = x"
| "join_with sep (x # y # ys) = x @ sep @ join_with sep (y # ys)"

definition extractMatches :: "string \<Rightarrow> regex \<Rightarrow> string" where
  "extractMatches text regex = join_with '' '' (exec_all regex True text)"

subsection \<open>The index\<close>

record doc =
  uri :: string
  displayTitle :: string
  content :: string
  indexTitle :: string

text \<open>The fields of \<^verbatim>\<open>IndexSearch\<close>.\<close>

record index_search =
  docs :: "doc list"
  docFrequency :: "string \<rightharpoonup> nat"
  docIndices :: "string \<rightharpoonup> nat list"
  docLengths :: "nat list"
  avgDocLength :: real

definition new_index :: index_search where
  "new_index = \<lparr>docs = [], docFrequency = Map.empty, docIndices = Map.empty,
                 docLengths = [], avgDocLength = 0\<rparr>"

definition K1 :: real where "K1 = 1.5"
definition B :: real where "B = 0.75"

definition TITLE_BOOST_EMPTY :: nat where "TITLE_BOOST_EMPTY = 8"
definition TITLE_BOOST_SHORT :: nat where "TITLE_BOOST_SHORT = 5"
definition TITLE_BOOST_LONG :: nat where "TITLE_BOOST_LONG = 3"
definition SHORT_PAGE_THRESHOLD :: nat where "SHORT_PAGE_THRESHOLD = 800"

definition getTitleBoost :: "doc \<Rightarrow> nat" where
  "getTitleBoost d =
     (let n = length (content d) in
      if n = 0 then TITLE_BOOST_EMPTY
      else if n < SHORT_PAGE_THRESHOLD then TITLE_BOOST_SHORT
      else TITLE_BOOST_LONG)"

text \<open>The haystack of \<^verbatim>\<open>add\<close>; \<^verbatim>\<open>filter(Boolean)\<close> drops the empty strings.\<close>

definition haystack :: "doc \<Rightarrow> string" where
  "haystack d =
     (let content_l = toLowerCase (content d);
          titleText = toLowerCase (indexTitle d);
          headers = extractMatches (content d) MD_HEADER_RE;
          codeBlocks = extractMatches (content d) MD_CODE_BLOCK_RE;
          inlineCode = extractMatches (content d) MD_INLINE_CODE_RE;
          linkText = extractMatches (content d) MD_LINK_TEXT_RE
      in join_with '' ''
           (filter (\<lambda>s. s \<noteq> [])
              [titleText, toLowerCase headers, toLowerCase linkText, toLowerCase codeBlocks,
               toLowerCase inlineCode, content_l]))"

definition allTokens :: "(string \<Rightarrow> string) \<Rightarrow> doc \<Rightarrow> string list" where
  "allTokens stem d =
     (let unigrams = tokenize stem (haystack d);
          bigrams = generateBigrams unigrams
      in unigrams @ bigrams)"

text \<open>The loop \<^verbatim>\<open>for (const tok of allTokens)\<close> of \<^verbatim>\<open>add\<close>, on the posting lists, the
  document frequencies, the set \<open>seen\<close> and the array \<open>docTokens\<close>.\<close>

fun add_tokens ::
  "nat \<Rightarrow> string list \<Rightarrow>
   (string \<rightharpoonup> nat list) \<times> (string \<rightharpoonup> nat) \<times> string set \<times> string list \<Rightarrow>
   (string \<rightharpoonup> nat list) \<times> (string \<rightharpoonup> nat) \<times> string set \<times> string list" where
  "add_tokens idx [] st = st"
| "add_tokens idx (tok # rest) (di, df, seen, docTokens) =
     (let indices = (case di tok of None \<Rightarrow> [] | Some is \<Rightarrow> is) @ [idx];
          di' = di(tok \<mapsto> indices);
          df' = (if tok \<notin> seen
                 then df(tok \<mapsto> (case df tok of None \<Rightarrow> 0 | Some n \<Rightarrow> n) + 1)
                 else df);
          seen' = (if tok \<notin> seen then insert tok seen else seen)
      in add_tokens idx rest (di', df', seen', docTokens @ [tok]))"

definition add :: "(string \<Rightarrow> string) \<Rightarrow> index_search \<Rightarrow> doc \<Rightarrow> index_search" where
  "add stem ix d =
     (let idx = length (docs ix);
          (di, df, seen, docTokens) =
             add_tokens idx (allTokens stem d) (docIndices ix, docFrequency ix, {}, []);
          dls = docLengths ix @ [length docTokens];
          totalLength = foldl (+) 0 dls
      in \<lparr>docs = docs ix @ [d], docFrequency = df, docIndices = di, docLengths = dls,
          avgDocLength = real totalLength / real (length dls)\<rparr>)"

text \<open>The index after \<^verbatim>\<open>new IndexSearch().add(d1).add(d2)...\<close>: every state an index can
  be in, since its fields are private and \<^verbatim>\<open>add\<close> alone assigns them.\<close>

definition build :: "(string \<Rightarrow> string) \<Rightarrow> doc list \<Rightarrow> index_search" where
  "build stem ds = foldl (add stem) new_index ds"

subsection \<open>Scoring\<close>

definition weightedTf :: "doc \<Rightarrow> string \<Rightarrow> nat option" where
  "weightedTf d token =
     (let contentLower = toLowerCase (content d);
          titleLower = toLowerCase (indexTitle d)
      in do {
        contentTf \<leftarrow> countOccurrences contentLower token;
        titleTf \<leftarrow> countOccurrences titleLower token;
        headerTf \<leftarrow> countOccurrences (toLowerCase (extractMatches (content d) MD_HEADER_RE)) token;
        codeTf \<leftarrow> countOccurrences (toLowerCase (extractMatches (content d) MD_CODE_BLOCK_RE)) token;
        linkTf \<leftarrow> countOccurrences (toLowerCase (extractMatches (content d) MD_LINK_TEXT_RE)) token;
        Some (contentTf + titleTf * getTitleBoost d + headerTf * 4 + codeTf * 2 + linkTf * 2)
      })"

text \<open>\<^verbatim>\<open>this.docLengths[docIdx] || 1\<close>: 1 for a missing entry and for the entry 0.\<close>

definition docLength :: "index_search \<Rightarrow> nat \<Rightarrow> real" where
  "docLength ix docIdx =
     (if docIdx < length (docLengths ix) \<and> docLengths ix ! docIdx \<noteq> 0
      then real (docLengths ix ! docIdx) else 1)"

definition avgLen :: "index_search \<Rightarrow> real" where
  "avgLen ix = max (avgDocLength ix) 1"

definition idf_arg :: "index_search \<Rightarrow> string \<Rightarrow> real" where
  "idf_arg ix token =
     (let nDocs = max (length (docs ix)) 1;
          df = (case docFrequency ix token of None \<Rightarrow> 0 | Some n \<Rightarrow> n)
      in (real nDocs - real df + 0.5) / (real df + 0.5) + 1.0)"

definition idf :: "index_search \<Rightarrow> string \<Rightarrow> real" where
  "idf ix token = ln (idf_arg ix token)"

definition tf_denominator :: "index_search \<Rightarrow> nat \<Rightarrow> nat \<Rightarrow> real" where
  "tf_denominator ix wtf docIdx =
     real wtf + K1 * (1 - B + B * (docLength ix docIdx / avgLen ix))"

definition tfComponent :: "index_search \<Rightarrow> nat \<Rightarrow> nat \<Rightarrow> real" where
  "tfComponent ix wtf docIdx = (real wtf * (K1 + 1)) / tf_denominator ix wtf docIdx"

definition calculateBM25Score :: "index_search \<Rightarrow> doc \<Rightarrow> string \<Rightarrow> nat \<Rightarrow> real option" where
  "calculateBM25Score ix d token docIdx =
     do { wtf \<leftarrow> weightedTf d token;
          Some (idf ix token * tfComponent ix wtf docIdx) }"

subsection \<open>Search\<close>

text \<open>The map \<open>scores\<close>: a JavaScript \<^verbatim>\<open>Map\<close> iterates its keys in the order of their
  first insertion, so it is a list of entries in that order.\<close>

type_synonym scores = "(nat \<times> real) list"

definition scores_get :: "scores \<Rightarrow> nat \<Rightarrow> real" where
  "scores_get scores idx = (case map_of scores idx of None \<Rightarrow> 0 | Some v \<Rightarrow> v)"

definition scores_set :: "scores \<Rightarrow> nat \<Rightarrow> real \<Rightarrow> scores" where
  "scores_set scores idx v =
     (if idx \<in> fst ` set scores
      then map (\<lambda>(i, s). if i = idx then (i, v) else (i, s)) scores
      else scores @ [(idx, v)])"

datatype error = TypeError

text \<open>The inner loop \<^verbatim>\<open>for (const idx of indices)\<close>. Reading \<^verbatim>\<open>doc.content\<close> of a
  position outside \<^verbatim>\<open>this.docs\<close> throws; a score that is never returned leaves the
  loop without a result (\<open>None\<close>).\<close>

fun score_indices ::
  "index_search \<Rightarrow> string \<Rightarrow> nat list \<Rightarrow> scores \<Rightarrow> (error + scores) option" where
  "score_indices ix qt [] scores = Some (Inr scores)"
| "score_indices ix qt (idx # rest) scores =
     (if idx < length (docs ix) then
        (case calculateBM25Score ix (docs ix ! idx) qt idx of
           None \<Rightarrow> None
         | Some score \<Rightarrow>
             score_indices ix qt rest (scores_set scores idx (scores_get scores idx + score)))
      else Some (Inl TypeError))"

text \<open>The outer loop \<^verbatim>\<open>for (const qt of qTokens)\<close>.\<close>

fun score_tokens ::
  "index_search \<Rightarrow> string list \<Rightarrow> scores \<Rightarrow> (error + scores) option" where
  "score_tokens ix [] scores = Some (Inr scores)"
| "score_tokens ix (qt # rest) scores =
     (let indices = (case docIndices ix qt of None \<Rightarrow> [] | Some is \<Rightarrow> is) in
      case score_indices ix qt indices scores of
        None \<Rightarrow> None
      | Some (Inl e) \<Rightarrow> Some (Inl e)
      | Some (Inr scores') \<Rightarrow> score_tokens ix rest scores')"

record search_result =
  score :: real
  doc :: doc

definition qTokens :: "(string \<Rightarrow> string) \<Rightarrow> string \<Rightarrow> string list" where
  "qTokens stem query =
     (let qUnigrams = tokenize stem query;
          qBigrams = generateBigrams qUnigrams
      in qUnigrams @ qBigrams)"

text \<open>
  The value \<^verbatim>\<open>search\<close> returns: \<open>None\<close> when the call does not return,
  \<open>Some (Inl e)\<close> when it throws, \<open>Some (Inr results)\<close> otherwise.
  \<^verbatim>\<open>Array.from(scores.entries())\<close> is mapped to the results and sorted with the
  comparator \<^verbatim>\<open>(a, b) => b.score - a.score\<close>. \<^verbatim>\<open>Array.prototype.sort\<close> is stable, and so
  is \<^const>\<open>sort_key\<close>; the key is the negated score. \<^verbatim>\<open>slice(0, k)\<close> is
  \<^const>\<open>take\<close> for the counts \<open>k\<close> of the model.
\<close>

definition search_results ::
  "(string \<Rightarrow> string) \<Rightarrow> index_search \<Rightarrow> string \<Rightarrow> nat \<Rightarrow> (error + search_result list) option" where
  "search_results stem ix query k =
     (if length (docs ix) = 0 then Some (Inr [])
      else case score_tokens ix (qTokens stem query) [] of
             None \<Rightarrow> None
           | Some (Inl e) \<Rightarrow> Some (Inl e)
           | Some (Inr scores) \<Rightarrow>
               let ranked = sort_key (\<lambda>r. - score r)
                              (map (\<lambda>(idx, s). \<lparr>score = s, doc = docs ix ! idx\<rparr>) scores)
               in Some (Inr (take k ranked)))"

text \<open>The method call on an index state: its value and the state. What the statements
  of the method do to the objects of the index is modelled on a store, below.\<close>

definition search ::
  "(string \<Rightarrow> string) \<Rightarrow> index_search \<Rightarrow> string \<Rightarrow> nat \<Rightarrow>
   (error + search_result list) option \<times> index_search" where
  "search stem ix query k = (search_results stem ix query k, ix)"

subsection \<open>The index as objects in a store\<close>

text \<open>
  The functions above read the index as a value. To say what a call of \<^verbatim>\<open>search\<close> does
  to the index, the same statements are modelled here as transitions on a store of
  objects: the \<^verbatim>\<open>IndexSearch\<close> instance, the arrays and maps its fields refer to, and
  the documents are objects at addresses, and so is the map \<open>scores\<close> that \<^verbatim>\<open>search\<close>
  creates and assigns to. An address is a position of the store; \<^verbatim>\<open>new\<close> appends an
  object. Strings, and the arrays of tokens and of results that are local to a call,
  stay values.
\<close>

type_synonym addr = nat

record index_obj =
  docs_ref :: addr
  docFrequency_ref :: addr
  docIndices_ref :: addr
  docLengths_ref :: addr
  avgDocLength_field :: real

datatype obj =
    Doc_obj doc
  | Doc_array "addr list"
  | Num_array "nat list"
  | Freq_map "string \<rightharpoonup> nat"
  | Posting_map "string \<rightharpoonup> addr"
  | Score_map scores
  | Index_obj index_obj

type_synonym store = "obj list"

definition cell :: "store \<Rightarrow> addr \<Rightarrow> obj option" where
  "cell h a = (if a < length h then Some (h ! a) else None)"

text \<open>\<^verbatim>\<open>xs[i]\<close>: \<open>None\<close> is \<^verbatim>\<open>undefined\<close>.\<close>

definition array_get :: "'a list \<Rightarrow> nat \<Rightarrow> 'a option" where
  "array_get xs i = (if i < length xs then Some (xs ! i) else None)"

text \<open>Reading the fields of \<^verbatim>\<open>this\<close>. A reference that does not lead to an object of
  the field's type gives \<open>None\<close>; the statement that reads it then throws, as reading a
  property of \<^verbatim>\<open>undefined\<close> does.\<close>

definition this_obj :: "store \<Rightarrow> addr \<Rightarrow> index_obj option" where
  "this_obj h this = (case cell h this of Some (Index_obj io) \<Rightarrow> Some io | _ \<Rightarrow> None)"

definition this_docs :: "store \<Rightarrow> addr \<Rightarrow> addr list option" where
  "this_docs h this =
     (case this_obj h this of
        None \<Rightarrow> None
      | Some io \<Rightarrow> (case cell h (docs_ref io) of Some (Doc_array rs) \<Rightarrow> Some rs | _ \<Rightarrow> None))"

definition this_docFrequency :: "store \<Rightarrow> addr \<Rightarrow> (string \<rightharpoonup> nat) option" where
  "this_docFrequency h this =
     (case this_obj h this of
        None \<Rightarrow> None
      | Some io \<Rightarrow> (case cell h (docFrequency_ref io) of Some (Freq_map f) \<Rightarrow> Some f | _ \<Rightarrow> None))"

definition this_docIndices :: "store \<Rightarrow> addr \<Rightarrow> (string \<rightharpoonup> addr) option" where
  "this_docIndices h this =
     (case this_obj h this of
        None \<Rightarrow> None
      | Some io \<Rightarrow> (case cell h (docIndices_ref io) of Some (Posting_map m) \<Rightarrow> Some m | _ \<Rightarrow> None))"

definition this_docLengths :: "store \<Rightarrow> addr \<Rightarrow> nat list option" where
  "this_docLengths h this =
     (case this_obj h this of
        None \<Rightarrow> None
      | Some io \<Rightarrow> (case cell h (docLengths_ref io) of Some (Num_array dl) \<Rightarrow> Some dl | _ \<Rightarrow> None))"

definition this_avgDocLength :: "store \<Rightarrow> addr \<Rightarrow> real option" where
  "this_avgDocLength h this = map_option avgDocLength_field (this_obj h this)"

text \<open>
  A statement run on a store gives \<open>None\<close> when it does not return, and otherwise its
  outcome (\<open>Inl\<close> an error thrown, \<open>Inr\<close> a value) with the store it leaves.

  \<^verbatim>\<open>calculateBM25Score(doc, token, docIdx)\<close>: \<open>doc_ref\<close> is the reference passed for
  \<^verbatim>\<open>doc\<close>, \<open>None\<close> for \<^verbatim>\<open>undefined\<close>, on which \<^verbatim>\<open>doc.content\<close> throws.
\<close>

definition h_calculateBM25Score ::
  "addr \<Rightarrow> addr option \<Rightarrow> string \<Rightarrow> nat \<Rightarrow> store \<Rightarrow> ((error + real) \<times> store) option" where
  "h_calculateBM25Score this doc_ref token docIdx h =
     (case (case doc_ref of
              None \<Rightarrow> None
            | Some a \<Rightarrow> (case cell h a of Some (Doc_obj d) \<Rightarrow> Some d | _ \<Rightarrow> None)) of
        None \<Rightarrow> Some (Inl TypeError, h)
      | Some d \<Rightarrow>
          (case weightedTf d token of
             None \<Rightarrow> None
           | Some wtf \<Rightarrow>
               (case this_docLengths h this of
                  None \<Rightarrow> Some (Inl TypeError, h)
                | Some dl \<Rightarrow>
               (case this_avgDocLength h this of
                  None \<Rightarrow> Some (Inl TypeError, h)
                | Some avg \<Rightarrow>
               (case this_docs h this of
                  None \<Rightarrow> Some (Inl TypeError, h)
                | Some rs \<Rightarrow>
               (case this_docFrequency h this of
                  None \<Rightarrow> Some (Inl TypeError, h)
                | Some f \<Rightarrow>
                    let docLength = (if docIdx < length dl \<and> dl ! docIdx \<noteq> 0
                                     then real (dl ! docIdx) else 1);
                        avgLen = max avg 1;
                        nDocs = max (length rs) 1;
                        df = (case f token of None \<Rightarrow> 0 | Some n \<Rightarrow> n);
                        idf = ln ((real nDocs - real df + 0.5) / (real df + 0.5) + 1.0);
                        tfComponent = (real wtf * (K1 + 1))
                                        / (real wtf + K1 * (1 - B + B * (docLength / avgLen)))
                    in Some (Inr (idf * tfComponent), h)))))))"

text \<open>The inner loop of \<^verbatim>\<open>search\<close> over the positions of one posting list, which is
  the array as the loop found it: the body reads \<^verbatim>\<open>this.docs[idx]\<close>, calls the scorer,
  and assigns to the object \<open>scores\<close> and to nothing else. The assignment
  \<^verbatim>\<open>scores.set(idx, (scores.get(idx) || 0) + score)\<close> replaces the object at the address
  \<open>scores_ref\<close>.\<close>

fun h_score_indices ::
  "addr \<Rightarrow> addr \<Rightarrow> string \<Rightarrow> nat list \<Rightarrow> store \<Rightarrow> ((error + unit) \<times> store) option" where
  "h_score_indices this scores_ref qt [] h = Some (Inr (), h)"
| "h_score_indices this scores_ref qt (idx # rest) h =
     (case this_docs h this of
        None \<Rightarrow> Some (Inl TypeError, h)
      | Some rs \<Rightarrow>
          (case h_calculateBM25Score this (array_get rs idx) qt idx h of
             None \<Rightarrow> None
           | Some (Inl e, h1) \<Rightarrow> Some (Inl e, h1)
           | Some (Inr s, h1) \<Rightarrow>
               (case cell h1 scores_ref of
                  Some (Score_map scores) \<Rightarrow>
                    h_score_indices this scores_ref qt rest
                      (h1[scores_ref := Score_map (scores_set scores idx (scores_get scores idx + s))])
                | _ \<Rightarrow> Some (Inl TypeError, h1))))"

text \<open>The outer loop over the query tokens. \<^verbatim>\<open>this.docIndices.get(qt) || []\<close> is the
  array the map refers to, or an empty array when the map has no entry.\<close>

fun h_score_tokens ::
  "addr \<Rightarrow> addr \<Rightarrow> string list \<Rightarrow> store \<Rightarrow> ((error + unit) \<times> store) option" where
  "h_score_tokens this scores_ref [] h = Some (Inr (), h)"
| "h_score_tokens this scores_ref (qt # rest) h =
     (case this_docIndices h this of
        None \<Rightarrow> Some (Inl TypeError, h)
      | Some m \<Rightarrow>
          (case (case m qt of
                   None \<Rightarrow> Some []
                 | Some a \<Rightarrow> (case cell h a of Some (Num_array indices) \<Rightarrow> Some indices | _ \<Rightarrow> None)) of
             None \<Rightarrow> Some (Inl TypeError, h)
           | Some indices \<Rightarrow>
               (case h_score_indices this scores_ref qt indices h of
                  None \<Rightarrow> None
                | Some (Inl e, h1) \<Rightarrow> Some (Inl e, h1)
                | Some (Inr u, h1) \<Rightarrow> h_score_tokens this scores_ref rest h1)))"

text \<open>A result as \<^verbatim>\<open>search\<close> builds it: the score and the reference \<^verbatim>\<open>this.docs[idx]\<close>
  to the indexed document.\<close>

record ref_result =
  r_score :: real
  r_doc :: "addr option"

text \<open>
  \<^verbatim>\<open>search(query, k)\<close> on the store: the test on \<^verbatim>\<open>this.docs.length\<close>, the query tokens,
  \<^verbatim>\<open>new Map()\<close> for \<open>scores\<close> at the next free address, the two loops, and the entries of
  \<open>scores\<close> mapped to results, sorted and sliced.
\<close>

definition h_search ::
  "(string \<Rightarrow> string) \<Rightarrow> addr \<Rightarrow> string \<Rightarrow> nat \<Rightarrow> store
   \<Rightarrow> ((error + ref_result list) \<times> store) option" where
  "h_search stem this query k h =
     (case this_docs h this of
        None \<Rightarrow> Some (Inl TypeError, h)
      | Some rs0 \<Rightarrow>
          if length rs0 = 0 then Some (Inr [], h)
          else
            let qUnigrams = tokenize stem query;
                qBigrams = generateBigrams qUnigrams;
                qTokens = qUnigrams @ qBigrams;
                scores_ref = length h;
                h1 = h @ [Score_map []]
            in (case h_score_tokens this scores_ref qTokens h1 of
                  None \<Rightarrow> None
                | Some (Inl e, h2) \<Rightarrow> Some (Inl e, h2)
                | Some (Inr u, h2) \<Rightarrow>
                    (case cell h2 scores_ref of
                       Some (Score_map scores) \<Rightarrow>
                         (case this_docs h2 this of
                            None \<Rightarrow> Some (Inl TypeError, h2)
                          | Some rs \<Rightarrow>
                              let ranked = sort_key (\<lambda>r. - r_score r)
                                             (map (\<lambda>(idx, s). \<lparr>r_score = s, r_doc = array_get rs idx\<rparr>)
                                                scores)
                              in Some (Inr (take k ranked), h2))
                     | _ \<Rightarrow> Some (Inl TypeError, h2))))"

subsection \<open>Definitions used to state the properties\<close>

text \<open>What one sub-part of a camel-case part contributes: nothing for an empty part or
  a stop word, the part itself for a preserved term, otherwise its stem unless that is a
  stop word.\<close>

definition camel_emit :: "(string \<Rightarrow> string) \<Rightarrow> string \<Rightarrow> string list" where
  "camel_emit stem camelPart =
     (let camelLower = toLowerCase camelPart in
      if camelLower = [] \<or> camelLower \<in> set STOP_WORDS then []
      else if camelLower \<in> set PRESERVE_TERMS then [camelLower]
      else if stem camelLower \<in> set STOP_WORDS then [] else [stem camelLower])"

text \<open>The tokens of the sub-parts of one camel-case part: that part's own output, before
  the stem of the whole part.\<close>

definition camel_tokens :: "(string \<Rightarrow> string) \<Rightarrow> string \<Rightarrow> string list" where
  "camel_tokens stem part = concat (map (camel_emit stem) (camel_split [] part))"

text \<open>The tokenizer as the specification words it: the stem of the whole camel-case part
  is compared with the tokens of this part only. It differs from \<^const>\<open>part_step\<close> in
  nothing else.\<close>

definition part_step_scoped :: "(string \<Rightarrow> string) \<Rightarrow> string list \<Rightarrow> string \<Rightarrow> string list" where
  "part_step_scoped stem tokens part =
     (let partLower = toLowerCase part in
      if partLower = [] \<or> partLower \<in> set STOP_WORDS then tokens
      else if partLower \<in> set PRESERVE_TERMS then tokens @ [partLower]
      else if has_camel part then
        (let own = camel_tokens stem part; stemmedOriginal = stem partLower in
         tokens @ own @
           (if stemmedOriginal \<notin> set STOP_WORDS \<and> stemmedOriginal \<notin> set own
            then [stemmedOriginal] else []))
      else (let stemmed = stem partLower in
            if stemmed \<notin> set STOP_WORDS then tokens @ [stemmed] else tokens))"

definition tokenize_scoped :: "(string \<Rightarrow> string) \<Rightarrow> string \<Rightarrow> string list" where
  "tokenize_scoped stem text =
     foldl (\<lambda>tokens token. foldl (part_step_scoped stem) tokens
         (if CHR ''-'' \<in> set token then split_on (CHR ''-'') [] token else [token]))
       [] (match_TOKEN_RE text)"

text \<open>A string without the character that joins the two halves of a bigram.\<close>

definition no_sep :: "string \<Rightarrow> bool" where
  "no_sep w = (CHR ''_'' \<notin> set w)"

text \<open>The number of occurrences of \<open>t\<close> in \<open>s\<close>, scanning from left to right and
  not overlapping: an occurrence at the front is counted and skipped whole.\<close>

function count_nonoverlapping :: "string \<Rightarrow> string \<Rightarrow> nat" where
  "count_nonoverlapping s t =
     (if t = [] \<or> s = [] then 0
      else if prefix t s then 1 + count_nonoverlapping (drop (length t) s) t
      else count_nonoverlapping (tl s) t)"
  by pat_completeness auto
termination
  by (relation "measure (\<lambda>(s, t). length s)") auto

text \<open>The title boost as the specification words it, on the length of the raw content.\<close>

definition title_boost :: "nat \<Rightarrow> nat" where
  "title_boost n = (if n = 0 then 8 else if n < 800 then 5 else 3)"

text \<open>\<^verbatim>\<open>this.docFrequency.get(t) || 0\<close> and \<^verbatim>\<open>this.docIndices.get(t) || []\<close>.\<close>

definition df_value :: "index_search \<Rightarrow> string \<Rightarrow> nat" where
  "df_value ix t = (case docFrequency ix t of None \<Rightarrow> 0 | Some n \<Rightarrow> n)"

definition postings :: "index_search \<Rightarrow> string \<Rightarrow> nat list" where
  "postings ix t = (case docIndices ix t of None \<Rightarrow> [] | Some is \<Rightarrow> is)"

text \<open>Documents for the concrete evaluations: no content, a title of short words.\<close>

definition doc_bb :: doc where
  "doc_bb = \<lparr>uri = ''u-bb'', displayTitle = ''bb'', content = '''', indexTitle = ''bb''\<rparr>"

definition doc_cc :: doc where
  "doc_cc = \<lparr>uri = ''u-cc'', displayTitle = ''cc'', content = '''', indexTitle = ''cc''\<rparr>"

definition doc_bb_bb :: doc where
  "doc_bb_bb = \<lparr>uri = ''u-bb-bb'', displayTitle = ''bb bb'', content = '''', indexTitle = ''bb bb''\<rparr>"

definition doc_the :: doc where
  "doc_the = \<lparr>uri = ''u-the'', displayTitle = ''the'', content = '''', indexTitle = ''the''\<rparr>"

definition doc_md :: doc where
  "doc_md = \<lparr>uri = ''u-md'', displayTitle = ''Bb'',
              content = ''# Bb'' @ [CHR 0x0A] @ ''[bb](u) bb'' @ [CHR 0x0A] @ ''```'' @ [CHR 0x0A]
                          @ ''bb'' @ [CHR 0x0A] @ ''```'',
              indexTitle = ''Bb''\<rparr>"

text \<open>The length-normalized term-frequency component as the specification words it, with
  \<open>k1 = 1.5\<close> and \<open>b = 0.75\<close>.\<close>

definition tf_component_spec :: "real \<Rightarrow> real \<Rightarrow> real \<Rightarrow> real" where
  "tf_component_spec weighted_tf doc_length avg_length =
     weighted_tf * (1.5 + 1)
       / (weighted_tf + 1.5 * (1 - 0.75 + 0.75 * (doc_length / avg_length)))"

text \<open>The length recorded for the document at a position when it was inserted, and the
  mean of the recorded lengths.\<close>

definition recorded_length :: "(string \<Rightarrow> string) \<Rightarrow> doc list \<Rightarrow> nat \<Rightarrow> nat" where
  "recorded_length stem ds idx = length (allTokens stem (ds ! idx))"

definition mean_length :: "(string \<Rightarrow> string) \<Rightarrow> doc list \<Rightarrow> real" where
  "mean_length stem ds =
     real (sum_list (map (\<lambda>d. length (allTokens stem d)) ds)) / real (length ds)"

text \<open>The parts \<^verbatim>\<open>tokenize\<close> works through: every match of \<^verbatim>\<open>TOKEN_RE\<close>, split at its
  hyphens.\<close>

definition query_parts :: "string \<Rightarrow> string list" where
  "query_parts text =
     concat (map (\<lambda>token. if CHR ''-'' \<in> set token then split_on (CHR ''-'') [] token else [token])
               (match_TOKEN_RE text))"

text \<open>The positions behind the results: the entries of the map \<open>scores\<close> in ranked
  order, and the first \<open>k\<close> of them.\<close>

definition ranked :: "scores \<Rightarrow> scores" where
  "ranked scores = sort_key (\<lambda>(idx, s). - s) scores"

definition search_entries ::
  "(string \<Rightarrow> string) \<Rightarrow> index_search \<Rightarrow> string \<Rightarrow> nat \<Rightarrow> (error + scores) option" where
  "search_entries stem ix query k =
     (if length (docs ix) = 0 then Some (Inr [])
      else case score_tokens ix (qTokens stem query) [] of
             None \<Rightarrow> None
           | Some (Inl e) \<Rightarrow> Some (Inl e)
           | Some (Inr scores) \<Rightarrow> Some (Inr (take k (ranked scores))))"

text \<open>The elements of a list in the order of their first occurrence.\<close>

fun first_occurrences :: "nat list \<Rightarrow> nat list" where
  "first_occurrences [] = []"
| "first_occurrences (x # xs) = x # filter (\<lambda>y. y \<noteq> x) (first_occurrences xs)"

text \<open>The keys of the map \<open>scores\<close> after \<^verbatim>\<open>scores.set(idx, v)\<close>.\<close>

definition keys_add :: "nat list \<Rightarrow> nat \<Rightarrow> nat list" where
  "keys_add ks idx = (if idx \<in> set ks then ks else ks @ [idx])"

text \<open>
  The store \<open>h\<close> holds the index state \<open>ix\<close> at the address \<open>this\<close>: the instance, the
  array of documents and the documents, the two maps with the posting arrays, the array
  of lengths, and the average are there, with the contents \<open>ix\<close> has.
\<close>

definition holds :: "store \<Rightarrow> addr \<Rightarrow> index_search \<Rightarrow> bool" where
  "holds h this ix \<longleftrightarrow>
     (\<exists>io rs m.
        cell h this = Some (Index_obj io)
      \<and> cell h (docs_ref io) = Some (Doc_array rs)
      \<and> map (cell h) rs = map (\<lambda>d. Some (Doc_obj d)) (docs ix)
      \<and> cell h (docFrequency_ref io) = Some (Freq_map (docFrequency ix))
      \<and> cell h (docIndices_ref io) = Some (Posting_map m)
      \<and> (\<forall>t. case m t of
                None \<Rightarrow> docIndices ix t = None
              | Some a \<Rightarrow> (\<exists>indices. cell h a = Some (Num_array indices)
                                    \<and> docIndices ix t = Some indices))
      \<and> cell h (docLengths_ref io) = Some (Num_array (docLengths ix))
      \<and> avgDocLength_field io = avgDocLength ix)"

text \<open>A result with its document looked up in the store.\<close>

definition resolve :: "store \<Rightarrow> ref_result \<Rightarrow> search_result option" where
  "resolve h r =
     (case r_doc r of
        None \<Rightarrow> None
      | Some a \<Rightarrow> (case cell h a of
                     Some (Doc_obj d) \<Rightarrow> Some \<lparr>score = r_score r, doc = d\<rparr>
                   | _ \<Rightarrow> None))"

text \<open>A store that holds the index of the documents titled \<^verbatim>\<open>bb\<close> and \<^verbatim>\<open>cc\<close>.\<close>

definition store_bb_cc :: store where
  "store_bb_cc =
     [Index_obj \<lparr>docs_ref = 1, docFrequency_ref = 2, docIndices_ref = 3, docLengths_ref = 4,
                 avgDocLength_field = 1\<rparr>,
      Doc_array [5, 6],
      Freq_map [''bb'' \<mapsto> 1, ''cc'' \<mapsto> 1],
      Posting_map [''bb'' \<mapsto> 7, ''cc'' \<mapsto> 8],
      Num_array [1, 1],
      Doc_obj doc_bb,
      Doc_obj doc_cc,
      Num_array [0],
      Num_array [1]]"

section \<open>The tokenizer\<close>

subsection \<open>The stem of a whole camel-case part\<close>

lemma foldl_concat_map:
  "foldl f a (concat (map g xs)) = foldl (\<lambda>acc x. foldl f acc (g x)) a xs"
  by (induction xs arbitrary: a) simp_all

lemma tokenize_query_parts: "tokenize stem text = foldl (part_step stem) [] (query_parts text)"
  by (simp add: tokenize_def query_parts_def foldl_concat_map token_step_def [abs_def])

lemma camel_step_emit: "camel_step stem tokens cp = tokens @ camel_emit stem cp"
  by (simp add: camel_step_def camel_emit_def Let_def)

lemma foldl_camel_step:
  "foldl (camel_step stem) tokens cps = tokens @ concat (map (camel_emit stem) cps)"
  by (induction cps arbitrary: tokens) (simp_all add: camel_step_emit)

text \<open>
  Claim C6, as the code has it. \<^verbatim>\<open>tokenize\<close> works through the parts of its input in
  order, each on the tokens emitted so far. For a camel-case part that is neither a stop
  word nor a preserved term, it appends the tokens of the sub-parts and then the stem of
  the whole lower-cased part, provided that stem is not a stop word and occurs neither
  among the tokens of this part nor among the tokens already emitted for earlier parts
  of the same input: the test \<^verbatim>\<open>tokens.includes(stemmedOriginal)\<close> reads the one array
  of the whole call.
\<close>

theorem part_step_camel:
  assumes "has_camel part"
    and "toLowerCase part \<notin> set STOP_WORDS"
    and "toLowerCase part \<notin> set PRESERVE_TERMS"
  shows "tokenize stem text = foldl (part_step stem) [] (query_parts text)
       \<and> part_step stem tokens part =
           tokens @ camel_tokens stem part @
             (if stem (toLowerCase part) \<notin> set STOP_WORDS
                 \<and> stem (toLowerCase part) \<notin> set tokens
                 \<and> stem (toLowerCase part) \<notin> set (camel_tokens stem part)
              then [stem (toLowerCase part)] else [])"
proof -
  from assms(1) have "part \<noteq> []" by auto
  then have ne: "toLowerCase part \<noteq> []" by (simp add: toLowerCase_def)
  show ?thesis
    using assms ne
    by (simp add: part_step_def Let_def foldl_camel_step camel_tokens_def tokenize_query_parts)
qed

theorem part_step_camel_witness:
  "part_step stem_short [''ab''] ''aB'' = [''ab'', ''b'']
   \<and> part_step stem_short [] ''aB'' = [''b'', ''ab'']"
proof -
  have c: "has_camel ''aB''" by code_simp
  have s: "toLowerCase ''aB'' \<notin> set STOP_WORDS" by code_simp
  have p: "toLowerCase ''aB'' \<notin> set PRESERVE_TERMS" by code_simp
  have l: "toLowerCase ''aB'' = ''ab''" by code_simp
  have t: "camel_tokens stem_short ''aB'' = [''b'']" by code_simp
  have n: "''ab'' \<notin> set STOP_WORDS" by code_simp
  show ?thesis
    using part_step_camel [where stem = stem_short and tokens = "[''ab'']", OF c s p, THEN conjunct2]
          part_step_camel [where stem = stem_short and tokens = "[]", OF c s p, THEN conjunct2] n
    by (simp add: l t stem_short_def)
qed

text \<open>
  Claim C6 as stated scopes the test to the current part. On \<^verbatim>\<open>"ab aB"\<close> the stem
  \<^verbatim>\<open>ab\<close> of the part \<^verbatim>\<open>aB\<close> is no stop word and is not among that part's own tokens
  (\<^verbatim>\<open>b\<close> alone), yet the code does not emit it, because the earlier part \<^verbatim>\<open>ab\<close> did.
\<close>

theorem tokenize_dedup_counterexample:
  "tokenize stem_short ''ab aB'' = [''ab'', ''b'']
   \<and> tokenize_scoped stem_short ''ab aB'' = [''ab'', ''b'', ''ab'']"
  by code_simp


subsection \<open>The separator of bigrams\<close>

lemma lower_char_underscore: "lower_char c = CHR ''_'' \<longleftrightarrow> c = CHR ''_''"
proof (cases "is_upper c")
  case True
  then have r: "65 \<le> (of_char c :: nat)" "(of_char c :: nat) \<le> 90"
    by (simp_all add: is_upper_def Let_def)
  have "of_char (char_of (of_char c + 32 :: nat)) = ((of_char c + 32) mod 256 :: nat)"
    by simp
  with r have "of_char (lower_char c) = (of_char c + 32 :: nat)"
    using True by (simp add: lower_char_def)
  with r have "(of_char (lower_char c) :: nat) \<noteq> 95" by simp
  then have "lower_char c \<noteq> CHR ''_''" by auto
  moreover from r have "c \<noteq> CHR ''_''" by auto
  ultimately show ?thesis by simp
next
  case False
  then show ?thesis by (simp add: lower_char_def)
qed

lemma toLowerCase_underscore: "CHR ''_'' \<in> set (toLowerCase s) \<longleftrightarrow> CHR ''_'' \<in> set s"
proof -
  have "CHR ''_'' \<in> lower_char ` set s \<longleftrightarrow> (\<exists>c \<in> set s. lower_char c = CHR ''_'')"
    by (metis (no_types) image_iff)
  then show ?thesis by (simp add: toLowerCase_def lower_char_underscore)
qed

lemma scan_TOKEN_RE_chars:
  "m \<in> set (scan_TOKEN_RE cur s) \<Longrightarrow> set m \<subseteq> set cur \<union> set s"
proof (induction s arbitrary: cur)
  case Nil
  then show ?case by (auto split: if_splits)
next
  case (Cons c cs)
  then show ?case by (fastforce split: if_splits)
qed

lemma split_on_chars:
  "p \<in> set (split_on sep cur s) \<Longrightarrow> set p \<subseteq> set cur \<union> set s"
proof (induction s arbitrary: cur)
  case Nil
  then show ?case by auto
next
  case (Cons c cs)
  then show ?case by (fastforce split: if_splits)
qed

lemma camel_split_chars:
  "p \<in> set (camel_split cur s) \<Longrightarrow> set p \<subseteq> set cur \<union> set s"
proof (induction cur s rule: camel_split.induct)
  case (1 cur c d cs)
  then show ?case by (fastforce split: if_splits)
qed auto

lemma camel_step_no_sep:
  assumes "\<forall>w. no_sep w \<longrightarrow> no_sep (stem w)" "\<forall>t \<in> set tokens. no_sep t" "no_sep cp"
  shows "\<forall>t \<in> set (camel_step stem tokens cp). no_sep t"
proof -
  have "no_sep (toLowerCase cp)" using assms(3) by (simp add: no_sep_def toLowerCase_underscore)
  then show ?thesis using assms(1,2) by (auto simp: camel_step_def Let_def)
qed

lemma foldl_camel_step_no_sep:
  assumes "\<forall>w. no_sep w \<longrightarrow> no_sep (stem w)"
  shows "\<forall>t \<in> set tokens. no_sep t \<Longrightarrow> \<forall>cp \<in> set cps. no_sep cp
         \<Longrightarrow> \<forall>t \<in> set (foldl (camel_step stem) tokens cps). no_sep t"
proof (induction cps arbitrary: tokens)
  case Nil
  then show ?case by simp
next
  case (Cons cp cps)
  have "\<forall>t \<in> set (camel_step stem tokens cp). no_sep t"
    using camel_step_no_sep [OF assms Cons.prems(1), of cp] Cons.prems(2) by simp
  then show ?case using Cons.IH Cons.prems(2) by simp
qed

lemma part_step_no_sep:
  assumes st: "\<forall>w. no_sep w \<longrightarrow> no_sep (stem w)"
    and toks: "\<forall>t \<in> set tokens. no_sep t" and part: "no_sep part"
  shows "\<forall>t \<in> set (part_step stem tokens part). no_sep t"
proof -
  have l: "no_sep (toLowerCase part)" using part by (simp add: no_sep_def toLowerCase_underscore)
  have "\<forall>cp \<in> set (camel_split [] part). no_sep cp"
    using camel_split_chars [of _ "[]" part] part by (auto simp: no_sep_def)
  then have c: "\<forall>t \<in> set (foldl (camel_step stem) tokens (camel_split [] part)). no_sep t"
    using foldl_camel_step_no_sep [OF st toks] by blast
  show ?thesis using l c st toks by (auto simp: part_step_def Let_def)
qed

lemma foldl_part_step_no_sep:
  assumes "\<forall>w. no_sep w \<longrightarrow> no_sep (stem w)"
  shows "\<forall>t \<in> set tokens. no_sep t \<Longrightarrow> \<forall>p \<in> set ps. no_sep p
         \<Longrightarrow> \<forall>t \<in> set (foldl (part_step stem) tokens ps). no_sep t"
proof (induction ps arbitrary: tokens)
  case Nil
  then show ?case by simp
next
  case (Cons p ps)
  have "\<forall>t \<in> set (part_step stem tokens p). no_sep t"
    using part_step_no_sep [OF assms Cons.prems(1), of p] Cons.prems(2) by simp
  then show ?case using Cons.IH Cons.prems(2) by simp
qed

lemma token_step_no_sep:
  assumes st: "\<forall>w. no_sep w \<longrightarrow> no_sep (stem w)"
    and toks: "\<forall>t \<in> set tokens. no_sep t" and tok: "no_sep token"
  shows "\<forall>t \<in> set (token_step stem tokens token). no_sep t"
proof -
  have "\<forall>p \<in> set (if CHR ''-'' \<in> set token then split_on (CHR ''-'') [] token else [token]). no_sep p"
    using split_on_chars [of _ "CHR ''-''" "[]" token] tok by (auto simp: no_sep_def)
  then show ?thesis
    unfolding token_step_def using foldl_part_step_no_sep [OF st toks] by blast
qed

lemma foldl_token_step_no_sep:
  assumes "\<forall>w. no_sep w \<longrightarrow> no_sep (stem w)"
  shows "\<forall>t \<in> set tokens. no_sep t \<Longrightarrow> \<forall>m \<in> set ms. no_sep m
         \<Longrightarrow> \<forall>t \<in> set (foldl (token_step stem) tokens ms). no_sep t"
proof (induction ms arbitrary: tokens)
  case Nil
  then show ?case by simp
next
  case (Cons m ms)
  have "\<forall>t \<in> set (token_step stem tokens m). no_sep t"
    using token_step_no_sep [OF assms Cons.prems(1), of m] Cons.prems(2) by simp
  then show ?case using Cons.IH Cons.prems(2) by simp
qed

lemma tokenize_no_sep:
  assumes "\<forall>w. no_sep w \<longrightarrow> no_sep (stem w)" "no_sep text"
  shows "\<forall>t \<in> set (tokenize stem text). no_sep t"
proof -
  have "\<forall>m \<in> set (match_TOKEN_RE text). no_sep m"
    using scan_TOKEN_RE_chars [of _ "[]" "text"] assms(2)
    by (auto simp: no_sep_def match_TOKEN_RE_def)
  then show ?thesis
    unfolding tokenize_def using foldl_token_step_no_sep [OF assms(1), of "[]"] by simp
qed

lemma generateBigrams_sep: "b \<in> set (generateBigrams ts) \<Longrightarrow> \<not> no_sep b"
  by (induction ts rule: generateBigrams.induct) (auto simp: no_sep_def)

text \<open>
  Claim C7, as the code has it. The underscore is a token character of \<^verbatim>\<open>TOKEN_RE\<close>,
  so a unigram can contain it. Every bigram contains the separator; and when neither
  input text contains an underscore and the stemmer introduces none, no unigram of the
  one text contains the separator, so no bigram of the other equals any of them.
\<close>

theorem unigrams_bigrams_disjoint:
  assumes "\<forall>w. no_sep w \<longrightarrow> no_sep (stem w)" and "no_sep text" and "no_sep text'"
  shows "(\<forall>u \<in> set (tokenize stem text). CHR ''_'' \<notin> set u)
       \<and> (\<forall>b \<in> set (generateBigrams (tokenize stem text')). CHR ''_'' \<in> set b)
       \<and> set (generateBigrams (tokenize stem text')) \<inter> set (tokenize stem text) = {}"
  using tokenize_no_sep [OF assms(1,2)] generateBigrams_sep [of _ "tokenize stem text'"]
  by (auto simp: no_sep_def)

theorem unigrams_bigrams_disjoint_witness:
  "set (generateBigrams (tokenize stem_short ''b c'')) \<inter> set (tokenize stem_short ''b-c'') = {}
   \<and> generateBigrams (tokenize stem_short ''b c'') = [''b_c'']
   \<and> tokenize stem_short ''b-c'' = [''b'', ''c'']"
proof -
  have s: "\<forall>w. no_sep w \<longrightarrow> no_sep (stem_short w)" by (simp add: stem_short_def)
  have a: "no_sep ''b-c''" by (simp add: no_sep_def)
  have b: "no_sep ''b c''" by (simp add: no_sep_def)
  have c: "generateBigrams (tokenize stem_short ''b c'') = [''b_c'']" by code_simp
  have d: "tokenize stem_short ''b-c'' = [''b'', ''c'']" by code_simp
  show ?thesis using unigrams_bigrams_disjoint [OF s a b] c d by blast
qed

text \<open>
  Claim C7 as stated fails on the input \<^verbatim>\<open>"_"\<close>, which is one match of \<^verbatim>\<open>TOKEN_RE\<close>
  and comes out as the unigram \<^verbatim>\<open>_\<close>.
\<close>

theorem unigram_separator_counterexample:
  "tokenize stem_short ''_'' = [''_''] \<and> CHR ''_'' \<in> set (hd (tokenize stem_short ''_''))"
  by code_simp

section \<open>Markdown extraction\<close>

lemma MD_HEADER_RE_consumes:
  assumes "MD_HEADER_RE bol s = Some (g, m, rest)"
  shows "length rest < length s"
proof -
  define h where "h = length (takeWhile (\<lambda>c. c = CHR ''#'') s)"
  define r where "r = drop h s"
  define fw where "fw = find (\<lambda>w. w < length r \<and> \<not> is_line_terminator (r ! w))
                          (rev [1 ..< Suc (length (takeWhile is_space r))])"
  have eq: "MD_HEADER_RE bol s =
     (if \<not> bol then None
      else if h < 1 \<or> 6 < h then None
      else (case fw of
              None \<Rightarrow> None
            | Some w \<Rightarrow>
                Some (takeWhile (\<lambda>c. \<not> is_line_terminator c) (drop w r),
                      take (h + w + length (takeWhile (\<lambda>c. \<not> is_line_terminator c) (drop w r))) s,
                      drop (length (takeWhile (\<lambda>c. \<not> is_line_terminator c) (drop w r)))
                        (drop w r))))"
    by (simp only: MD_HEADER_RE_def Let_def h_def r_def fw_def)
  have hs: "h \<le> length s" unfolding h_def by (rule length_takeWhile_le)
  from assms have h1: "1 \<le> h"
    unfolding eq by (auto split: if_splits)
  from assms obtain n w where "rest = drop n (drop w r)"
    unfolding eq by (auto split: if_splits option.splits)
  then have "length rest \<le> length s - h" by (simp add: r_def)
  then show ?thesis using hs h1 by simp
qed

lemma drop_eq_Cons_length: "drop n xs = y # ys \<Longrightarrow> length ys < length xs"
proof -
  assume "drop n xs = y # ys"
  then have "length (drop n xs) = Suc (length ys)" by simp
  then show ?thesis by simp
qed

lemma MD_CODE_BLOCK_RE_consumes:
  assumes "MD_CODE_BLOCK_RE bol s = Some (g, m, rest)"
  shows "length rest < length s"
  using assms
  by (auto simp: MD_CODE_BLOCK_RE_def Let_def split: if_splits list.splits option.splits
      dest!: drop_eq_Cons_length)

lemma MD_INLINE_CODE_RE_consumes:
  assumes "MD_INLINE_CODE_RE bol s = Some (g, m, rest)"
  shows "length rest < length s"
  using assms
  by (auto simp: MD_INLINE_CODE_RE_def Let_def split: if_splits list.splits
      dest!: drop_eq_Cons_length)

lemma MD_LINK_TEXT_RE_consumes:
  assumes "MD_LINK_TEXT_RE bol s = Some (g, m, rest)"
  shows "length rest < length s"
  using assms
  by (auto simp: MD_LINK_TEXT_RE_def Let_def split: if_splits list.splits
      dest!: drop_eq_Cons_length)

text \<open>For a pattern that consumes, the loop is the plain one.\<close>

lemma exec_all_consuming:
  assumes "\<And>bol s g m rest. re bol s = Some (g, m, rest) \<Longrightarrow> length rest < length s"
  shows "exec_all re bol s =
     (case re bol s of
        Some (g, m, rest) \<Rightarrow>
          (if g = [] then m else g) # exec_all re (m \<noteq> [] \<and> is_line_terminator (last m)) rest
      | None \<Rightarrow> (case s of [] \<Rightarrow> [] | c # cs \<Rightarrow> exec_all re (is_line_terminator c) cs))"
  using assms by (subst exec_all.simps) (auto split: option.splits)

section \<open>Counting occurrences\<close>

declare count_nonoverlapping.simps [simp del]

lemma indexOf_None:
  assumes "indexOf s t pos = None" "pos \<le> i" "i \<le> length s"
  shows "\<not> prefix t (drop i s)"
proof -
  have "i \<in> set [min pos (length s) ..< Suc (length s)]" using assms(2,3) by auto
  then show ?thesis using assms(1) unfolding indexOf_def find_None_iff by blast
qed

lemma indexOf_Some:
  assumes "indexOf s t pos = Some p" "pos \<le> length s"
  shows "pos \<le> p \<and> p \<le> length s \<and> prefix t (drop p s)
         \<and> (\<forall>i. pos \<le> i \<and> i < p \<longrightarrow> \<not> prefix t (drop i s))"
proof -
  define xs where "xs = [pos ..< Suc (length s)]"
  have len: "length xs = Suc (length s) - pos" by (simp add: xs_def del: upt_Suc)
  have nth: "xs ! j = pos + j" if "j < length xs" for j
    using that unfolding xs_def by (simp del: upt_Suc)
  from assms have "find (\<lambda>i. prefix t (drop i s)) xs = Some p"
    by (simp add: indexOf_def min_def xs_def del: upt_Suc)
  then obtain k where k: "k < length xs" "prefix t (drop (xs ! k) s)" "p = xs ! k"
      "\<forall>j<k. \<not> prefix t (drop (xs ! j) s)"
    unfolding find_Some_iff by blast
  have pk: "p = pos + k" using k(1,3) nth by simp
  have "\<not> prefix t (drop i s)" if "pos \<le> i" "i < p" for i
  proof -
    have "i - pos < k" using that pk by simp
    then have "\<not> prefix t (drop (xs ! (i - pos)) s)" using k(4) by blast
    moreover have "xs ! (i - pos) = i" using that k(1) pk nth [of "i - pos"] by simp
    ultimately show ?thesis by simp
  qed
  moreover have "p \<le> length s" using k(1) pk len by simp
  moreover have "prefix t (drop p s)" using k(2,3) by simp
  ultimately show ?thesis using pk by simp
qed

lemma count_skip:
  assumes "t \<noteq> []" "\<forall>i. pos \<le> i \<and> i < p \<longrightarrow> \<not> prefix t (drop i s)" "pos \<le> p" "p \<le> length s"
  shows "count_nonoverlapping (drop pos s) t = count_nonoverlapping (drop p s) t"
  using assms(2,3)
proof (induction "p - pos" arbitrary: pos)
  case 0
  then show ?case by simp
next
  case (Suc n)
  then have lt: "pos < p" by simp
  then have ne: "drop pos s \<noteq> []" using assms(4) by simp
  have np: "\<not> prefix t (drop pos s)" using Suc.prems lt by simp
  have "count_nonoverlapping (drop pos s) t = count_nonoverlapping (tl (drop pos s)) t"
    using ne np assms(1) by (subst count_nonoverlapping.simps) simp
  also have "tl (drop pos s) = drop (Suc pos) s" by (simp add: drop_Suc tl_drop)
  also have "count_nonoverlapping (drop (Suc pos) s) t = count_nonoverlapping (drop p s) t"
    using Suc.hyps(1) [of "Suc pos"] Suc.hyps(2) Suc.prems lt by simp
  finally show ?case .
qed

lemma count_none:
  assumes "t \<noteq> []" "\<forall>i. pos \<le> i \<and> i \<le> length s \<longrightarrow> \<not> prefix t (drop i s)" "pos \<le> length s"
  shows "count_nonoverlapping (drop pos s) t = 0"
proof -
  have "count_nonoverlapping (drop pos s) t = count_nonoverlapping (drop (length s) s) t"
    using count_skip [OF assms(1) _ assms(3)] assms(2) by simp
  then show ?thesis by (simp add: count_nonoverlapping.simps)
qed

text \<open>The loop of \<^verbatim>\<open>countOccurrences\<close> returns for every token that is not empty, with
  the number of non-overlapping occurrences from \<open>pos\<close> on added to the counter.\<close>

lemma count_loop_eq:
  assumes "t \<noteq> []"
  shows "pos \<le> length s
         \<Longrightarrow> count_loop s t c pos = Some (c + count_nonoverlapping (drop pos s) t)"
proof (induction "length s - pos" arbitrary: pos c rule: less_induct)
  case less
  show ?case
  proof (cases "indexOf s t pos")
    case None
    then have "count_nonoverlapping (drop pos s) t = 0"
      using count_none [OF assms _ less.prems] indexOf_None by blast
    then show ?thesis using None by (subst count_loop.simps) simp
  next
    case (Some p)
    note ix = indexOf_Some [OF Some less.prems]
    from ix have pre: "prefix t (drop p s)" and pp: "pos \<le> p" "p \<le> length s" by simp_all
    from pre have "length t \<le> length (drop p s)" by (rule prefix_length_le)
    then have le: "p + length t \<le> length s" using pp by simp
    have ne: "drop p s \<noteq> []" using pre assms by auto
    have step: "length s - (p + length t) < length s - pos"
      using le pp assms by (cases t) simp_all
    have "count_nonoverlapping (drop pos s) t = count_nonoverlapping (drop p s) t"
      using count_skip [OF assms _ pp] ix by blast
    also have "\<dots> = 1 + count_nonoverlapping (drop (length t) (drop p s)) t"
      using ne pre assms by (subst count_nonoverlapping.simps) simp
    also have "drop (length t) (drop p s) = drop (p + length t) s" by (simp add: add.commute)
    finally have c: "count_nonoverlapping (drop pos s) t
                     = 1 + count_nonoverlapping (drop (p + length t) s) t" .
    have "count_loop s t c pos = count_loop s t (c + 1) (p + length t)"
      using Some by (subst count_loop.simps) simp
    also have "\<dots> = Some (c + 1 + count_nonoverlapping (drop (p + length t) s) t)"
      using less.hyps [OF step le] .
    finally show ?thesis using c by simp
  qed
qed

lemma countOccurrences_eq:
  "token \<noteq> [] \<Longrightarrow> countOccurrences text token = Some (count_nonoverlapping (toLowerCase text) token)"
  using count_loop_eq [of token 0 "toLowerCase text" 0] by (simp add: countOccurrences_def)

lemma toLowerCase_idem: "toLowerCase (toLowerCase s) = toLowerCase s"
proof -
  have "lower_char (lower_char c) = lower_char c" for c
  proof (cases "is_upper c")
    case True
    then have r: "65 \<le> (of_char c :: nat)" "(of_char c :: nat) \<le> 90"
      by (simp_all add: is_upper_def Let_def)
    have "of_char (char_of (of_char c + 32 :: nat)) = ((of_char c + 32) mod 256 :: nat)"
      by simp
    with r have "of_char (lower_char c) = (of_char c + 32 :: nat)"
      using True by (simp add: lower_char_def)
    with r have "\<not> is_upper (lower_char c)" by (simp add: is_upper_def Let_def)
    then show ?thesis by (simp add: lower_char_def)
  next
    case False
    then show ?thesis by (simp add: lower_char_def)
  qed
  then show ?thesis by (simp add: toLowerCase_def)
qed

section \<open>The index after a sequence of insertions\<close>

lemma add_tokens_result:
  "add_tokens idx toks (di, df, seen, dt) =
     ((\<lambda>t. if t \<in> set toks
           then Some ((case di t of None \<Rightarrow> [] | Some is \<Rightarrow> is) @ replicate (count_list toks t) idx)
           else di t),
      (\<lambda>t. if t \<in> set toks \<and> t \<notin> seen
           then Some ((case df t of None \<Rightarrow> 0 | Some n \<Rightarrow> n) + 1) else df t),
      seen \<union> set toks,
      dt @ toks)"
proof (induction toks arbitrary: di df seen dt)
  case Nil
  then show ?case by simp
next
  case (Cons tok rest)
  show ?case
    by (auto simp add: Let_def Cons.IH fun_eq_iff replicate_app_Cons_same)
qed

lemma foldl_plus: "foldl (+) (a :: nat) xs = a + sum_list xs"
  by (induction xs arbitrary: a) simp_all

lemma docs_add: "docs (add stem ix d) = docs ix @ [d]"
  by (simp add: add_def Let_def split: prod.splits)

lemma docFrequency_add:
  "docFrequency (add stem ix d) t =
     (if t \<in> set (allTokens stem d) then Some (df_value ix t + 1) else docFrequency ix t)"
  by (simp add: add_def Let_def add_tokens_result df_value_def)

lemma docIndices_add:
  "docIndices (add stem ix d) t =
     (if t \<in> set (allTokens stem d)
      then Some (postings ix t @ replicate (count_list (allTokens stem d) t) (length (docs ix)))
      else docIndices ix t)"
  by (simp add: add_def Let_def add_tokens_result postings_def)

lemma docLengths_add:
  "docLengths (add stem ix d) = docLengths ix @ [length (allTokens stem d)]"
  by (simp add: add_def Let_def add_tokens_result)

lemma avgDocLength_add:
  "avgDocLength (add stem ix d) =
     real (sum_list (docLengths ix) + length (allTokens stem d)) / real (length (docLengths ix) + 1)"
  by (simp add: add_def Let_def add_tokens_result foldl_plus)

lemma build_snoc: "build stem (ds @ [d]) = add stem (build stem ds) d"
  by (simp add: build_def)

lemma build_Nil: "build stem [] = new_index"
  by (simp add: build_def)

lemma docs_build: "docs (build stem ds) = ds"
  by (induction ds rule: rev_induct) (simp_all add: build_Nil build_snoc docs_add new_index_def)

lemma docFrequency_build:
  "docFrequency (build stem ds) t =
     (let n = length (filter (\<lambda>d. t \<in> set (allTokens stem d)) ds)
      in if n = 0 then None else Some n)"
proof (induction ds rule: rev_induct)
  case Nil
  then show ?case by (simp add: build_Nil new_index_def)
next
  case (snoc d ds)
  then show ?case
    by (simp add: build_snoc docFrequency_add df_value_def Let_def)
qed

lemma df_value_build:
  "df_value (build stem ds) t = length (filter (\<lambda>d. t \<in> set (allTokens stem d)) ds)"
  by (simp add: df_value_def docFrequency_build Let_def)

lemma docLengths_build:
  "docLengths (build stem ds) = map (\<lambda>d. length (allTokens stem d)) ds"
  by (induction ds rule: rev_induct)
     (simp_all add: build_Nil build_snoc docLengths_add new_index_def)

lemma avgDocLength_build:
  "avgDocLength (build stem ds) =
     (if ds = [] then 0
      else real (sum_list (map (\<lambda>d. length (allTokens stem d)) ds)) / real (length ds))"
proof (cases ds rule: rev_cases)
  case Nil
  then show ?thesis by (simp add: build_Nil new_index_def)
next
  case (snoc ds' d)
  then show ?thesis
    by (simp add: build_snoc avgDocLength_add docLengths_build)
qed

lemma postings_build_bound:
  "i \<in> set (postings (build stem ds) t) \<Longrightarrow> i < length ds"
proof (induction ds arbitrary: i rule: rev_induct)
  case Nil
  then show ?case by (simp add: build_Nil new_index_def postings_def)
next
  case (snoc d ds)
  show ?case
  proof (cases "t \<in> set (allTokens stem d)")
    case True
    then have "postings (build stem (ds @ [d])) t =
        postings (build stem ds) t @ replicate (count_list (allTokens stem d) t) (length ds)"
      unfolding build_snoc
      by (simp add: postings_def [of "add stem (build stem ds) d"] docIndices_add docs_build)
    then show ?thesis using snoc by (auto simp: less_Suc_eq)
  next
    case False
    then have "postings (build stem (ds @ [d])) t = postings (build stem ds) t"
      by (simp add: postings_def build_snoc docIndices_add)
    then show ?thesis using snoc by (auto simp: less_Suc_eq)
  qed
qed

text \<open>A position in the posting list of a token is the position of a document that has
  the token: \<^verbatim>\<open>search\<close> scores only documents with at least one token, whose recorded
  length is not 0.\<close>

lemma postings_build_member:
  "i \<in> set (postings (build stem ds) t) \<Longrightarrow> t \<in> set (allTokens stem (ds ! i))"
proof (induction ds arbitrary: i rule: rev_induct)
  case Nil
  then show ?case by (simp add: build_Nil new_index_def postings_def)
next
  case (snoc d ds)
  show ?case
  proof (cases "t \<in> set (allTokens stem d)")
    case True
    then have "postings (build stem (ds @ [d])) t =
        postings (build stem ds) t @ replicate (count_list (allTokens stem d) t) (length ds)"
      unfolding build_snoc
      by (simp add: postings_def [of "add stem (build stem ds) d"] docIndices_add docs_build)
    then have "i \<in> set (postings (build stem ds) t) \<or> i = length ds"
      using snoc.prems by (auto split: if_splits)
    then show ?thesis
    proof
      assume a: "i \<in> set (postings (build stem ds) t)"
      then have "i < length ds" by (rule postings_build_bound)
      then show ?thesis using snoc.IH [OF a] by (simp add: nth_append)
    next
      assume "i = length ds"
      then show ?thesis using True by simp
    qed
  next
    case False
    then have "postings (build stem (ds @ [d])) t = postings (build stem ds) t"
      by (simp add: postings_def build_snoc docIndices_add)
    then have a: "i \<in> set (postings (build stem ds) t)" using snoc.prems by simp
    then have "i < length ds" by (rule postings_build_bound)
    then show ?thesis using snoc.IH [OF a] by (simp add: nth_append)
  qed
qed

lemma postings_build_length:
  assumes "i \<in> set (postings (build stem ds) t)"
  shows "docLengths (build stem ds) ! i \<noteq> 0"
proof -
  have "i < length ds" using assms by (rule postings_build_bound)
  moreover have "allTokens stem (ds ! i) \<noteq> []"
    using postings_build_member [OF assms] by auto
  ultimately show ?thesis by (simp add: docLengths_build)
qed


text \<open>
  Claim C8. After any sequence of \<^verbatim>\<open>add\<close> calls on a fresh index, the document-frequency
  counter of every token is the number of documents (counted by position) whose token
  list, the unigrams and bigrams of the haystack, contains the token; one \<^verbatim>\<open>add\<close> raises
  the counter by one if the token occurs in the new document, however often, and leaves
  it as it is otherwise.
\<close>

theorem docFrequency_counts_documents:
  "(case docFrequency (build stem ds) t of None \<Rightarrow> 0 | Some n \<Rightarrow> n)
     = length (filter (\<lambda>d. t \<in> set (allTokens stem d)) ds)
   \<and> (case docFrequency (add stem ix d) t of None \<Rightarrow> 0 | Some n \<Rightarrow> n)
     = (case docFrequency ix t of None \<Rightarrow> 0 | Some n \<Rightarrow> n)
       + (if t \<in> set (allTokens stem d) then 1 else 0)"
  using df_value_build [of stem ds t]
  by (simp add: df_value_def docFrequency_add)

theorem docFrequency_counts_documents_witness:
  "(case docFrequency (build stem_short [doc_bb, doc_bb_bb, doc_cc]) ''bb'' of
      None \<Rightarrow> 0 | Some n \<Rightarrow> n) = 2
   \<and> allTokens stem_short doc_bb_bb = [''bb'', ''bb'', ''bb_bb'']"
proof -
  have a: "allTokens stem_short doc_bb = [''bb'']" by code_simp
  have b: "allTokens stem_short doc_bb_bb = [''bb'', ''bb'', ''bb_bb'']" by code_simp
  have c: "allTokens stem_short doc_cc = [''cc'']" by code_simp
  show ?thesis
    using docFrequency_counts_documents [of stem_short "[doc_bb, doc_bb_bb, doc_cc]" "''bb''"]
    by (simp add: a b c)
qed

section \<open>Scoring\<close>

text \<open>With the empty token the loop does not return: \<^verbatim>\<open>indexOf\<close> finds it at once and
  the position does not advance.\<close>

lemma count_loop_Some_nonempty:
  assumes "count_loop s t c pos = Some y"
  shows "t \<noteq> []"
proof (rule count_loop.raw_induct [where P = "\<lambda>lower token count pos y. token \<noteq> []"])
  show "count_loop s t c pos = Some y" by (rule assms)
next
  fix f :: "string \<Rightarrow> string \<Rightarrow> nat \<Rightarrow> nat \<Rightarrow> nat option"
    and lower token :: string and count pos y :: nat
  assume ih: "\<And>lower token count pos y. f lower token count pos = Some y \<Longrightarrow> token \<noteq> []"
    and step: "(case indexOf lower token pos of None \<Rightarrow> Some count
               | Some p \<Rightarrow> f lower token (count + 1) (p + length token)) = Some y"
  show "token \<noteq> []"
  proof (cases "indexOf lower token pos")
    case None
    have "min pos (length lower) \<in> set [min pos (length lower) ..< Suc (length lower)]"
      by auto
    then have "\<not> prefix token (drop (min pos (length lower)) lower)"
      using None unfolding indexOf_def find_None_iff by blast
    then show ?thesis by auto
  next
    case (Some p)
    then show ?thesis using ih step by simp
  qed
qed

lemma count_loop_empty: "count_loop s [] c pos = None"
  using count_loop_Some_nonempty [of s "[]" c pos] by (cases "count_loop s [] c pos") auto

lemma getTitleBoost_eq: "getTitleBoost d = title_boost (length (content d))"
  by (simp add: getTitleBoost_def title_boost_def Let_def TITLE_BOOST_EMPTY_def
      TITLE_BOOST_SHORT_def TITLE_BOOST_LONG_def SHORT_PAGE_THRESHOLD_def)

text \<open>
  Claim C4. For every document and every token (a token is never the empty string), the
  weighted term frequency is the count in the content, plus the count in the index title
  times the title boost (8 for an empty content, 5 for a content under 800 characters,
  3 otherwise), plus four times the count in the heading text, plus twice the count in
  the fenced code and twice the count in the link labels; each count is the number of
  non-overlapping occurrences, from left to right, in the lower-cased extract.
\<close>

theorem weightedTf_formula:
  assumes "token \<noteq> []"
  shows "weightedTf d token =
     Some (count_nonoverlapping (toLowerCase (content d)) token
           + count_nonoverlapping (toLowerCase (indexTitle d)) token * title_boost (length (content d))
           + count_nonoverlapping (toLowerCase (extractMatches (content d) MD_HEADER_RE)) token * 4
           + count_nonoverlapping (toLowerCase (extractMatches (content d) MD_CODE_BLOCK_RE)) token * 2
           + count_nonoverlapping (toLowerCase (extractMatches (content d) MD_LINK_TEXT_RE)) token * 2)"
  using assms
  by (simp add: weightedTf_def Let_def countOccurrences_eq toLowerCase_idem getTitleBoost_eq)

theorem weightedTf_formula_witness:
  "weightedTf doc_md ''bb'' = Some (4 + 1 * 5 + 1 * 4 + 1 * 2 + 1 * 2)"
proof -
  have t: "''bb'' \<noteq> []" by simp
  have c: "count_nonoverlapping (toLowerCase (content doc_md)) ''bb'' = 4" by code_simp
  have i: "count_nonoverlapping (toLowerCase (indexTitle doc_md)) ''bb'' = 1" by code_simp
  have h: "count_nonoverlapping (toLowerCase (extractMatches (content doc_md) MD_HEADER_RE)) ''bb'' = 1"
    by code_simp
  have k: "count_nonoverlapping (toLowerCase (extractMatches (content doc_md) MD_CODE_BLOCK_RE)) ''bb'' = 1"
    by code_simp
  have l: "count_nonoverlapping (toLowerCase (extractMatches (content doc_md) MD_LINK_TEXT_RE)) ''bb'' = 1"
    by code_simp
  have b: "title_boost (length (content doc_md)) = 5" by code_simp
  show ?thesis using weightedTf_formula [OF t, of doc_md] by (simp only: c i h k l b)
qed

lemma weightedTf_returns: "token \<noteq> [] \<Longrightarrow> \<exists>wtf. weightedTf d token = Some wtf"
  by (simp add: weightedTf_def Let_def countOccurrences_eq)

lemma docLength_ge_1: "1 \<le> docLength ix idx"
  by (auto simp: docLength_def)

lemma avgLen_ge_1: "1 \<le> avgLen ix"
  by (simp add: avgLen_def)

lemma tf_denominator_bound: "K1 * (1 - B) \<le> tf_denominator ix wtf idx"
proof -
  define q where "q = docLength ix idx / avgLen ix"
  have "0 \<le> q"
    unfolding q_def using docLength_ge_1 [of ix idx] avgLen_ge_1 [of ix] by simp
  then have "0 \<le> K1 * B * q" by (simp add: K1_def B_def)
  moreover have "tf_denominator ix wtf idx = real wtf + K1 * (1 - B) + K1 * B * q"
    by (simp add: tf_denominator_def q_def algebra_simps)
  ultimately show ?thesis by simp
qed

lemma tfComponent_nonneg: "0 \<le> tfComponent ix wtf idx"
proof -
  have "0 < tf_denominator ix wtf idx"
    using tf_denominator_bound [of ix wtf idx] by (simp add: K1_def B_def)
  then show ?thesis by (simp add: tfComponent_def K1_def)
qed

lemma idf_arg_build: "1 < idf_arg (build stem ds) token"
proof -
  let ?df = "length (filter (\<lambda>d. token \<in> set (allTokens stem d)) ds)"
  have df: "(case docFrequency (build stem ds) token of None \<Rightarrow> 0 | Some n \<Rightarrow> n) = ?df"
    using df_value_build [of stem ds token] by (simp add: df_value_def)
  have "?df \<le> length ds" by simp
  then have "?df \<le> max (length ds) 1" by (rule max.coboundedI1)
  then have "real ?df \<le> real (max (length ds) 1)" by (simp only: of_nat_le_iff)
  then have "0 < (real (max (length ds) 1) - real ?df + 0.5) / (real ?df + 0.5)"
    by simp
  then show ?thesis by (simp add: idf_arg_def Let_def df docs_build)
qed

text \<open>
  Claim C3. In every index reached by insertions, for every document, token and position,
  the score is returned and is not negative: the argument of the logarithm is positive
  (it exceeds 1), the denominator of the term-frequency component is at least
  \<open>k1 (1 - b) = 0.375\<close>, and the average length it divides by is at least 1.
\<close>

theorem score_nonnegative:
  assumes "token \<noteq> []"
  shows "\<exists>wtf s. weightedTf d token = Some wtf
           \<and> calculateBM25Score (build stem ds) d token idx = Some s
           \<and> s = ln (idf_arg (build stem ds) token)
                   * (real wtf * (K1 + 1) / tf_denominator (build stem ds) wtf idx)
           \<and> 0 \<le> s
           \<and> 0 < idf_arg (build stem ds) token
           \<and> K1 * (1 - B) \<le> tf_denominator (build stem ds) wtf idx
           \<and> K1 * (1 - B) = 0.375
           \<and> 1 \<le> avgLen (build stem ds)"
proof -
  obtain wtf where w: "weightedTf d token = Some wtf"
    using weightedTf_returns [OF assms] by blast
  let ?ix = "build stem ds"
  have a: "1 < idf_arg ?ix token" by (rule idf_arg_build)
  then have "0 \<le> idf ?ix token" by (simp add: idf_def)
  then have "0 \<le> idf ?ix token * tfComponent ?ix wtf idx"
    using tfComponent_nonneg [of ?ix wtf idx] by simp
  moreover have "calculateBM25Score ?ix d token idx = Some (idf ?ix token * tfComponent ?ix wtf idx)"
    by (simp add: calculateBM25Score_def w)
  moreover have "K1 * (1 - B) = 0.375" by (simp add: K1_def B_def)
  ultimately show ?thesis
    using w a tf_denominator_bound [of ?ix wtf idx] avgLen_ge_1 [of ?ix]
    by (simp add: idf_def tfComponent_def)
qed


theorem score_nonnegative_witness:
  "\<exists>s. calculateBM25Score (build stem_short [doc_bb, doc_cc]) doc_cc ''cc'' 1 = Some s \<and> 0 \<le> s"
proof -
  have t: "''cc'' \<noteq> []" by simp
  show ?thesis
    using score_nonnegative [OF t, of doc_cc stem_short "[doc_bb, doc_cc]" 1] by blast
qed

lemma docLength_build:
  assumes "idx < length ds"
  shows "docLength (build stem ds) idx =
           (if recorded_length stem ds idx = 0 then 1 else real (recorded_length stem ds idx))"
  using assms by (simp add: docLength_def docLengths_build recorded_length_def)

lemma avgLen_build:
  assumes "ds \<noteq> []"
  shows "avgLen (build stem ds) = max (mean_length stem ds) 1"
  using assms by (simp add: avgLen_def avgDocLength_build mean_length_def)

lemma tfComponent_spec:
  "tfComponent ix wtf idx = tf_component_spec (real wtf) (docLength ix idx) (avgLen ix)"
  by (simp add: tfComponent_def tf_denominator_def tf_component_spec_def K1_def B_def)

lemma allTokens_doc_the: "allTokens stem_short doc_the = []"
  by code_simp

lemma weightedTf_doc_the: "weightedTf doc_the ''th'' = Some 8"
  by code_simp

text \<open>
  Claim C5, as the code has it. For every position of the index, the score is the inverse
  document frequency times \<open>weighted_tf (k1 + 1) / (weighted_tf + k1 (1 - b + b
  (doc_length / avg_length)))\<close> with \<open>k1 = 1.5\<close> and \<open>b = 0.75\<close>, where \<open>avg_length\<close>
  is the mean recorded length floored at 1 and \<open>doc_length\<close> is the length recorded at
  insertion, except that a recorded length of 0 counts as 1
  (\<^verbatim>\<open>this.docLengths[docIdx] || 1\<close>).
\<close>

theorem tfComponent_formula:
  assumes "idx < length ds"
  shows "calculateBM25Score (build stem ds) d token idx =
           map_option
             (\<lambda>wtf. idf (build stem ds) token
                     * tf_component_spec (real wtf)
                         (if recorded_length stem ds idx = 0 then 1
                          else real (recorded_length stem ds idx))
                         (max (mean_length stem ds) 1))
             (weightedTf d token)
         \<and> docLengths (build stem ds) ! idx = recorded_length stem ds idx
         \<and> avgDocLength (build stem ds) = mean_length stem ds"
proof -
  from assms have ne: "ds \<noteq> []" by auto
  have "calculateBM25Score (build stem ds) d token idx =
          map_option (\<lambda>wtf. idf (build stem ds) token * tfComponent (build stem ds) wtf idx)
            (weightedTf d token)"
    by (cases "weightedTf d token") (simp_all add: calculateBM25Score_def)
  moreover have "docLengths (build stem ds) ! idx = recorded_length stem ds idx"
    using assms by (simp add: docLengths_build recorded_length_def)
  moreover have "avgDocLength (build stem ds) = mean_length stem ds"
    using ne by (simp add: avgDocLength_build mean_length_def)
  ultimately show ?thesis
    by (simp add: tfComponent_spec docLength_build [OF assms] avgLen_build [OF ne])
qed

theorem tfComponent_formula_witness:
  "calculateBM25Score (build stem_short [doc_the]) doc_the ''th'' 0
     = Some (idf (build stem_short [doc_the]) ''th'' * tf_component_spec 8 1 1)"
proof -
  have i: "(0::nat) < length [doc_the]" by simp
  have r: "recorded_length stem_short [doc_the] 0 = 0"
    by (simp add: recorded_length_def allTokens_doc_the)
  have m: "mean_length stem_short [doc_the] = 0"
    by (simp add: mean_length_def allTokens_doc_the)
  show ?thesis
    using tfComponent_formula [OF i, of stem_short doc_the "''th''"]
    by (simp add: r m weightedTf_doc_the)
qed

text \<open>
  Claim C5 as stated takes the recorded length also when it is 0. The document titled
  \<^verbatim>\<open>the\<close> has no token, so its recorded length is 0; the token \<^verbatim>\<open>th\<close> occurs in its
  title with weight 8, and the component is \<open>40 / 19\<close>, not the \<open>160 / 67\<close> of the
  formula with length 0.
\<close>

theorem tfComponent_zero_length_counterexample:
  "docLengths (build stem_short [doc_the]) = [0]
   \<and> weightedTf doc_the ''th'' = Some 8
   \<and> tfComponent (build stem_short [doc_the]) 8 0 = 40 / 19
   \<and> tf_component_spec 8 (real (docLengths (build stem_short [doc_the]) ! 0))
        (max (avgDocLength (build stem_short [doc_the])) 1) = 160 / 67"
proof -
  have l: "docLengths (build stem_short [doc_the]) = [0]"
    by (simp add: docLengths_build allTokens_doc_the)
  have a: "avgDocLength (build stem_short [doc_the]) = 0"
    by (simp add: avgDocLength_build allTokens_doc_the)
  have "tfComponent (build stem_short [doc_the]) 8 0 = 40 / 19"
    by (simp add: tfComponent_def tf_denominator_def docLength_def avgLen_def l a K1_def B_def)
  moreover have "tf_component_spec 8 (real (docLengths (build stem_short [doc_the]) ! 0))
        (max (avgDocLength (build stem_short [doc_the])) 1) = 160 / 67"
    by (simp add: tf_component_spec_def l a)
  ultimately show ?thesis using l weightedTf_doc_the by simp
qed

section \<open>Search\<close>

subsection \<open>Tokens are not empty\<close>

lemma foldl_invariant:
  assumes "\<And>acc x. P acc \<Longrightarrow> P (f acc x)" "P a"
  shows "P (foldl f a xs)"
  using assms(2) by (induction xs arbitrary: a) (simp_all add: assms(1))

lemma camel_step_nonempty:
  assumes "\<forall>w. w \<noteq> [] \<longrightarrow> stem w \<noteq> []" "[] \<notin> set tokens"
  shows "[] \<notin> set (camel_step stem tokens cp)"
proof -
  have "toLowerCase cp \<noteq> [] \<Longrightarrow> stem (toLowerCase cp) \<noteq> []"
    using assms(1) by blast
  then show ?thesis using assms(2) by (auto simp: camel_step_def Let_def)
qed

lemma part_step_nonempty:
  assumes st: "\<forall>w. w \<noteq> [] \<longrightarrow> stem w \<noteq> []" and toks: "[] \<notin> set tokens"
  shows "[] \<notin> set (part_step stem tokens part)"
proof -
  have c: "[] \<notin> set (foldl (camel_step stem) tokens (camel_split [] part))"
    by (rule foldl_invariant [where P = "\<lambda>ts. [] \<notin> set ts"])
       (simp_all add: camel_step_nonempty [OF st] toks)
  have "toLowerCase part \<noteq> [] \<Longrightarrow> stem (toLowerCase part) \<noteq> []"
    using st by blast
  then show ?thesis using c toks by (auto simp: part_step_def Let_def)
qed

lemma token_step_nonempty:
  assumes st: "\<forall>w. w \<noteq> [] \<longrightarrow> stem w \<noteq> []" and toks: "[] \<notin> set tokens"
  shows "[] \<notin> set (token_step stem tokens token)"
  unfolding token_step_def
  by (rule foldl_invariant [where P = "\<lambda>ts. [] \<notin> set ts"])
     (simp_all add: part_step_nonempty [OF st] toks)

lemma tokenize_nonempty:
  assumes st: "\<forall>w. w \<noteq> [] \<longrightarrow> stem w \<noteq> []"
  shows "[] \<notin> set (tokenize stem text)"
  unfolding tokenize_def
  by (rule foldl_invariant [where P = "\<lambda>ts. [] \<notin> set ts"])
     (simp_all add: token_step_nonempty [OF st])

lemma generateBigrams_nonempty: "[] \<notin> set (generateBigrams ts)"
  by (induction ts rule: generateBigrams.induct) auto

lemma qTokens_nonempty:
  assumes "\<forall>w. w \<noteq> [] \<longrightarrow> stem w \<noteq> []"
  shows "[] \<notin> set (qTokens stem query)"
  using tokenize_nonempty [OF assms] generateBigrams_nonempty
  by (simp add: qTokens_def Let_def)

subsection \<open>The accumulator\<close>

lemma scores_set_keys: "map fst (scores_set sc idx v) = keys_add (map fst sc) idx"
proof -
  have "map fst (map (\<lambda>(i, s). if i = idx then (i, v) else (i, s)) sc) = map fst sc"
    by (induction sc) auto
  then show ?thesis by (simp add: scores_set_def keys_add_def)
qed

lemma calculateBM25Score_returns:
  "qt \<noteq> [] \<Longrightarrow> \<exists>s. calculateBM25Score ix d qt idx = Some s"
  using weightedTf_returns [of qt d] by (auto simp: calculateBM25Score_def)

lemma score_indices_returns:
  assumes "qt \<noteq> []"
  shows "\<forall>i \<in> set is. i < length (docs ix)
         \<Longrightarrow> \<exists>sc'. score_indices ix qt is sc = Some (Inr sc')
                   \<and> map fst sc' = foldl keys_add (map fst sc) is"
proof (induction "is" arbitrary: sc)
  case Nil
  then show ?case by simp
next
  case (Cons i rest)
  obtain s where s: "calculateBM25Score ix (docs ix ! i) qt i = Some s"
    using calculateBM25Score_returns [OF assms] by blast
  have "\<forall>j \<in> set rest. j < length (docs ix)" using Cons.prems by simp
  from Cons.IH [OF this, of "scores_set sc i (scores_get sc i + s)"]
  show ?case using Cons.prems s by (simp add: scores_set_keys)
qed

lemma score_tokens_Cons:
  "score_tokens ix (qt # rest) sc =
     (case score_indices ix qt (postings ix qt) sc of
        None \<Rightarrow> None
      | Some (Inl e) \<Rightarrow> Some (Inl e)
      | Some (Inr sc') \<Rightarrow> score_tokens ix rest sc')"
  by (simp add: postings_def Let_def)

lemma score_tokens_returns:
  assumes bound: "\<And>qt i. i \<in> set (postings ix qt) \<Longrightarrow> i < length (docs ix)"
  shows "[] \<notin> set qts
         \<Longrightarrow> \<exists>sc'. score_tokens ix qts sc = Some (Inr sc')
                   \<and> map fst sc' = foldl keys_add (map fst sc) (concat (map (postings ix) qts))"
proof (induction qts arbitrary: sc)
  case Nil
  then show ?case by simp
next
  case (Cons qt rest)
  then have ne: "qt \<noteq> []" and r: "[] \<notin> set rest" by auto
  have b: "\<forall>i \<in> set (postings ix qt). i < length (docs ix)" using bound by blast
  obtain sc1 where sc1: "score_indices ix qt (postings ix qt) sc = Some (Inr sc1)"
      "map fst sc1 = foldl keys_add (map fst sc) (postings ix qt)"
    using score_indices_returns [OF ne b] by blast
  obtain sc2 where sc2: "score_tokens ix rest sc1 = Some (Inr sc2)"
      "map fst sc2 = foldl keys_add (map fst sc1) (concat (map (postings ix) rest))"
    using Cons.IH [OF r, of sc1] by blast
  have "score_tokens ix (qt # rest) sc = Some (Inr sc2)"
    by (simp only: score_tokens_Cons sc1 sc2 option.case sum.case)
  moreover have "map fst sc2 = foldl keys_add (map fst sc) (concat (map (postings ix) (qt # rest)))"
    by (simp add: sc1 sc2)
  ultimately show ?case by blast
qed

lemma foldl_keys_add:
  "foldl keys_add ks xs = ks @ filter (\<lambda>y. y \<notin> set ks) (first_occurrences xs)"
proof (induction xs arbitrary: ks)
  case Nil
  then show ?case by simp
next
  case (Cons x xs)
  show ?case
  proof (cases "x \<in> set ks")
    case True
    have "filter (\<lambda>y. y \<notin> set ks) (filter (\<lambda>y. y \<noteq> x) (first_occurrences xs))
          = filter (\<lambda>y. y \<notin> set ks) (first_occurrences xs)"
      unfolding filter_filter using True by (intro filter_cong) auto
    then show ?thesis using True Cons.IH [of ks] by (simp add: keys_add_def)
  next
    case False
    have "filter (\<lambda>y. y \<notin> set (ks @ [x])) (first_occurrences xs)
          = filter (\<lambda>y. y \<notin> set ks) (filter (\<lambda>y. y \<noteq> x) (first_occurrences xs))"
      unfolding filter_filter by (intro filter_cong) auto
    then show ?thesis using False Cons.IH [of "ks @ [x]"] by (simp add: keys_add_def)
  qed
qed

lemma set_first_occurrences: "set (first_occurrences xs) = set xs"
  by (induction xs) auto

lemma distinct_first_occurrences: "distinct (first_occurrences xs)"
  by (induction xs) (auto simp: set_first_occurrences)

subsection \<open>Ranking\<close>

lemma ranked_descending: "sorted_wrt (\<ge>) (map snd (ranked sc))"
proof -
  have "sorted (map (\<lambda>(idx, s). - s) (ranked sc))"
    unfolding ranked_def by (rule sorted_sort_key)
  then have "sorted_wrt (\<lambda>a b. - snd a \<le> - snd b) (ranked sc)"
    by (simp add: sorted_wrt_map case_prod_beta)
  then show ?thesis by (simp add: sorted_wrt_map)
qed

lemma ranked_stable: "filter (\<lambda>e. snd e = v) (ranked sc) = filter (\<lambda>e. snd e = v) sc"
proof -
  have "filter (\<lambda>e. (\<lambda>(idx, s). - s) e = - v) (sort_key (\<lambda>(idx, s). - s) sc)
        = filter (\<lambda>e. (\<lambda>(idx, s). - s) e = - v) sc"
    by (rule sort_key_stable)
  then show ?thesis by (simp add: ranked_def case_prod_beta)
qed

lemma distinct_map_insort_key:
  "distinct (map g (insort_key f x xs)) \<longleftrightarrow> g x \<notin> g ` set xs \<and> distinct (map g xs)"
  by (induction xs) (auto simp: set_insort_key)

lemma distinct_map_sort_key: "distinct (map g (sort_key f xs)) \<longleftrightarrow> distinct (map g xs)"
  by (induction xs) (simp_all add: distinct_map_insort_key)

lemma set_ranked: "set (ranked sc) = set sc"
  by (simp add: ranked_def)


lemma score_tokens_build:
  assumes "\<forall>w. w \<noteq> [] \<longrightarrow> stem w \<noteq> []"
  shows "\<exists>acc. score_tokens (build stem ds) (qTokens stem query) [] = Some (Inr acc)
           \<and> map fst acc
               = first_occurrences (concat (map (postings (build stem ds)) (qTokens stem query)))"
proof -
  have b: "\<And>qt i. i \<in> set (postings (build stem ds) qt) \<Longrightarrow> i < length (docs (build stem ds))"
    using postings_build_bound [of _ stem ds] by (simp add: docs_build)
  show ?thesis
    using score_tokens_returns [OF b qTokens_nonempty [OF assms, of query], where sc = "[]"]
    by (simp add: foldl_keys_add)
qed

lemma search_entries_build:
  assumes "\<forall>w. w \<noteq> [] \<longrightarrow> stem w \<noteq> []"
  shows "\<exists>acc. score_tokens (build stem ds) (qTokens stem query) [] = Some (Inr acc)
           \<and> map fst acc
               = first_occurrences (concat (map (postings (build stem ds)) (qTokens stem query)))
           \<and> search_entries stem (build stem ds) query k = Some (Inr (take k (ranked acc)))"
proof -
  obtain acc where acc: "score_tokens (build stem ds) (qTokens stem query) [] = Some (Inr acc)"
    "map fst acc = first_occurrences (concat (map (postings (build stem ds)) (qTokens stem query)))"
    using score_tokens_build [OF assms] by blast
  have "search_entries stem (build stem ds) query k = Some (Inr (take k (ranked acc)))"
  proof (cases "ds = []")
    case True
    have "set (map fst acc) = {}"
      unfolding acc(2) set_first_occurrences
      by (simp add: True build_Nil new_index_def postings_def)
    then have "acc = []" by simp
    then show ?thesis by (simp add: search_entries_def docs_build True ranked_def)
  next
    case False
    then show ?thesis by (simp add: search_entries_def docs_build acc(1))
  qed
  then show ?thesis using acc by blast
qed

lemma insort_key_map:
  "insort_key f (g x) (map g xs) = map g (insort_key (\<lambda>y. f (g y)) x xs)"
  by (induction xs) simp_all

lemma sort_key_map: "sort_key f (map g xs) = map g (sort_key (\<lambda>y. f (g y)) xs)"
  by (induction xs) (simp_all add: insort_key_map)

lemma sort_results:
  "sort_key (\<lambda>r. - score r) (map (\<lambda>(idx, s). \<lparr>score = s, doc = ds ! idx\<rparr>) sc)
     = map (\<lambda>(idx, s). \<lparr>score = s, doc = ds ! idx\<rparr>) (ranked sc)"
proof -
  have "(\<lambda>y. - score (case y of (idx, s) \<Rightarrow> \<lparr>score = s, doc = ds ! idx\<rparr>))
        = (\<lambda>(idx, s). - s)"
    by (simp add: fun_eq_iff)
  then show ?thesis by (simp add: sort_key_map ranked_def)
qed

lemma search_results_of_entries:
  assumes "search_entries stem ix query k = Some (Inr es)"
  shows "fst (search stem ix query k)
         = Some (Inr (map (\<lambda>(idx, s). \<lparr>score = s, doc = docs ix ! idx\<rparr>) es))"
proof (cases "length (docs ix) = 0")
  case True
  then show ?thesis using assms by (auto simp: search_def search_results_def search_entries_def)
next
  case False
  then obtain sc where sc: "score_tokens ix (qTokens stem query) [] = Some (Inr sc)"
      and es: "es = take k (ranked sc)"
    using assms by (auto simp: search_entries_def split: option.splits sum.splits)
  show ?thesis
    using False by (simp add: search_def search_results_def sc es sort_results take_map)
qed

text \<open>
  Claim C1, as the code has it. With a stemmer that maps no word to the empty string, for
  every index reached by insertions, every query and every \<open>k\<close>, \<^verbatim>\<open>search\<close> returns
  the first \<open>k\<close> entries of the ranked accumulator: at most \<open>k\<close> results, their scores
  non-increasing, and results of equal score in the order in which their documents
  entered the accumulator, which is the order of first occurrence of their positions in
  the posting lists of the query tokens taken one after the other.
\<close>

theorem search_ranked:
  assumes "\<forall>w. w \<noteq> [] \<longrightarrow> stem w \<noteq> []"
  shows "\<exists>acc es.
           score_tokens (build stem ds) (qTokens stem query) [] = Some (Inr acc)
         \<and> map fst acc
             = first_occurrences (concat (map (postings (build stem ds)) (qTokens stem query)))
         \<and> es = take k (ranked acc)
         \<and> fst (search stem (build stem ds) query k)
             = Some (Inr (map (\<lambda>(idx, s). \<lparr>score = s, doc = ds ! idx\<rparr>) es))
         \<and> length es \<le> k
         \<and> sorted_wrt (\<ge>) (map snd es)
         \<and> (\<forall>v. filter (\<lambda>e. snd e = v) (ranked acc) = filter (\<lambda>e. snd e = v) acc)"
proof -
  obtain acc where acc: "score_tokens (build stem ds) (qTokens stem query) [] = Some (Inr acc)"
    "map fst acc = first_occurrences (concat (map (postings (build stem ds)) (qTokens stem query)))"
    "search_entries stem (build stem ds) query k = Some (Inr (take k (ranked acc)))"
    using search_entries_build [OF assms] by blast
  have "sorted_wrt (\<ge>) (take k (map snd (ranked acc)))"
    using ranked_descending [of acc] by (rule sorted_wrt_take)
  then have "sorted_wrt (\<ge>) (map snd (take k (ranked acc)))" by (simp add: take_map)
  moreover have "fst (search stem (build stem ds) query k)
      = Some (Inr (map (\<lambda>(idx, s). \<lparr>score = s, doc = ds ! idx\<rparr>) (take k (ranked acc))))"
    using search_results_of_entries [OF acc(3)] by (simp add: docs_build)
  ultimately show ?thesis using acc(1,2) ranked_stable [of _ acc] by auto
qed

theorem search_ranked_witness:
  "\<exists>es. fst (search stem_short (build stem_short [doc_bb, doc_cc]) ''cc bb'' 1)
           = Some (Inr (map (\<lambda>(idx, s). \<lparr>score = s, doc = [doc_bb, doc_cc] ! idx\<rparr>) es))
        \<and> length es \<le> 1"
proof -
  have s: "\<forall>w. w \<noteq> [] \<longrightarrow> stem_short w \<noteq> []" by (simp add: stem_short_def)
  show ?thesis
    using search_ranked [OF s, of "[doc_bb, doc_cc]" "''cc bb''" 1] by blast
qed


lemma facts_bb_cc:
  "qTokens stem_short ''cc bb'' = [''cc'', ''bb'', ''cc_bb'']"
  "allTokens stem_short doc_bb = [''bb'']"
  "allTokens stem_short doc_cc = [''cc'']"
  "docIndices (build stem_short [doc_bb, doc_cc]) ''cc'' = Some [1]"
  "docIndices (build stem_short [doc_bb, doc_cc]) ''bb'' = Some [0]"
  "docIndices (build stem_short [doc_bb, doc_cc]) ''cc_bb'' = None"
  "weightedTf doc_cc ''cc'' = Some 8"
  "weightedTf doc_bb ''bb'' = Some 8"
  by code_simp+

lemma score_bb_cc:
  "calculateBM25Score (build stem_short [doc_bb, doc_cc]) doc_cc ''cc'' (Suc 0) = Some (ln 2 * (40 / 19))"
  "calculateBM25Score (build stem_short [doc_bb, doc_cc]) doc_bb ''bb'' 0 = Some (ln 2 * (40 / 19))"
  by (simp_all add: calculateBM25Score_def idf_def idf_arg_def tfComponent_def tf_denominator_def
      docLength_def avgLen_def docs_build docFrequency_build docLengths_build avgDocLength_build
      facts_bb_cc K1_def B_def Let_def)

text \<open>
  Claim C1 as stated breaks ties by the position of the document. On the documents
  titled \<^verbatim>\<open>bb\<close> (position 0) and \<^verbatim>\<open>cc\<close> (position 1) the query \<^verbatim>\<open>"cc bb"\<close> gives
  both the same score, and the document at position 1 comes first.
\<close>

theorem search_tie_order_counterexample:
  "fst (search stem_short (build stem_short [doc_bb, doc_cc]) ''cc bb'' 8)
     = Some (Inr [\<lparr>score = ln 2 * (40 / 19), doc = doc_cc\<rparr>,
                  \<lparr>score = ln 2 * (40 / 19), doc = doc_bb\<rparr>])
   \<and> docs (build stem_short [doc_bb, doc_cc]) ! 0 = doc_bb
   \<and> docs (build stem_short [doc_bb, doc_cc]) ! 1 = doc_cc"
proof -
  have "score_tokens (build stem_short [doc_bb, doc_cc]) (qTokens stem_short ''cc bb'') []
        = Some (Inr [(1, ln 2 * (40 / 19)), (0, ln 2 * (40 / 19))])"
    by (simp add: facts_bb_cc docs_build score_bb_cc scores_set_def scores_get_def)
  then show ?thesis
    by (simp add: search_def search_results_def docs_build)
qed

subsection \<open>Empty results\<close>

lemma part_step_stop_word: "toLowerCase p \<in> set STOP_WORDS \<Longrightarrow> part_step stem tokens p = tokens"
  by (simp add: part_step_def Let_def)

lemma foldl_part_step_stop_words:
  "\<forall>p \<in> set ps. toLowerCase p \<in> set STOP_WORDS \<Longrightarrow> foldl (part_step stem) tokens ps = tokens"
  by (induction ps arbitrary: tokens) (simp_all add: part_step_stop_word)

lemma qTokens_stop_words:
  "\<forall>p \<in> set (query_parts query). toLowerCase p \<in> set STOP_WORDS \<Longrightarrow> qTokens stem query = []"
  by (simp add: qTokens_def Let_def tokenize_query_parts foldl_part_step_stop_words)

lemma score_tokens_absent:
  "\<forall>t \<in> set qts. docIndices ix t = None \<Longrightarrow> score_tokens ix qts sc = Some (Inr sc)"
  by (induction qts arbitrary: sc) simp_all

lemma search_absent:
  assumes "\<forall>t \<in> set (qTokens stem query). docIndices ix t = None"
  shows "fst (search stem ix query k) = Some (Inr [])"
  using score_tokens_absent [OF assms, of "[]"]
  by (simp add: search_def search_results_def)

lemma score_indices_no_throw:
  "\<forall>i \<in> set is. i < length (docs ix) \<Longrightarrow> score_indices ix qt is sc \<noteq> Some (Inl e)"
  by (induction "is" arbitrary: sc) (auto split: option.splits)

lemma score_tokens_no_throw:
  assumes bound: "\<And>qt i. i \<in> set (postings ix qt) \<Longrightarrow> i < length (docs ix)"
  shows "score_tokens ix qts sc \<noteq> Some (Inl e)"
proof (induction qts arbitrary: sc)
  case Nil
  then show ?case by simp
next
  case (Cons qt rest)
  have "\<forall>i \<in> set (postings ix qt). i < length (docs ix)" using bound by blast
  then have "score_indices ix qt (postings ix qt) sc \<noteq> Some (Inl e')" for e'
    by (rule score_indices_no_throw)
  then show ?case
    using Cons.IH
    by (auto simp: score_tokens_Cons simp del: score_tokens.simps split: option.splits sum.splits)
qed

lemma search_no_throw: "fst (search stem (build stem ds) query k) \<noteq> Some (Inl e)"
proof -
  have b: "\<And>qt i. i \<in> set (postings (build stem ds) qt) \<Longrightarrow> i < length (docs (build stem ds))"
    using postings_build_bound [of _ stem ds] by (simp add: docs_build)
  show ?thesis
    using score_tokens_no_throw [OF b, where qts = "qTokens stem query" and sc = "[]" and e = e]
    by (auto simp: search_def search_results_def Let_def split: option.splits sum.splits)
qed


text \<open>
  Claim C2. On every index reached by insertions \<^verbatim>\<open>search\<close> does not throw, and it
  returns a list when the stemmer maps no word to the empty string; it returns the empty
  list for the empty query, on the index without documents, for a query whose parts are
  all stop words, and for a query none of whose tokens has a posting list.
\<close>

theorem search_total:
  "fst (search stem (build stem ds) query k) \<noteq> Some (Inl err)
   \<and> ((\<forall>w. w \<noteq> [] \<longrightarrow> stem w \<noteq> [])
      \<longrightarrow> (\<exists>rs. fst (search stem (build stem ds) query k) = Some (Inr rs)))
   \<and> fst (search stem (build stem ds) [] k) = Some (Inr [])
   \<and> fst (search stem (build stem []) query k) = Some (Inr [])
   \<and> ((\<forall>p \<in> set (query_parts query). toLowerCase p \<in> set STOP_WORDS)
      \<longrightarrow> fst (search stem (build stem ds) query k) = Some (Inr []))
   \<and> ((\<forall>t \<in> set (qTokens stem query). docIndices (build stem ds) t = None)
      \<longrightarrow> fst (search stem (build stem ds) query k) = Some (Inr []))"
proof -
  have a: "\<exists>rs. fst (search stem (build stem ds) query k) = Some (Inr rs)"
    if st: "\<forall>w. w \<noteq> [] \<longrightarrow> stem w \<noteq> []"
  proof -
    obtain acc where "search_entries stem (build stem ds) query k = Some (Inr (take k (ranked acc)))"
      using search_entries_build [OF st] by blast
    then show ?thesis using search_results_of_entries by blast
  qed
  have "qTokens stem [] = []" by code_simp
  then have b: "fst (search stem (build stem ds) [] k) = Some (Inr [])"
    using search_absent [of stem "[]" "build stem ds" k] by simp
  have c: "fst (search stem (build stem []) query k) = Some (Inr [])"
    by (simp add: search_def search_results_def docs_build)
  have d: "fst (search stem (build stem ds) query k) = Some (Inr [])"
    if "\<forall>p \<in> set (query_parts query). toLowerCase p \<in> set STOP_WORDS"
    using search_absent [of stem query "build stem ds" k] qTokens_stop_words [OF that, of stem]
    by simp
  have e: "fst (search stem (build stem ds) query k) = Some (Inr [])"
    if "\<forall>t \<in> set (qTokens stem query). docIndices (build stem ds) t = None"
    using search_absent [OF that] .
  show ?thesis using a b c d e search_no_throw [of stem ds query k err] by blast
qed

theorem search_total_witness:
  "(\<exists>rs. fst (search stem_short (build stem_short [doc_bb, doc_cc]) ''cc bb'' 8) = Some (Inr rs))
   \<and> fst (search stem_short (build stem_short [doc_bb]) ''the and or'' 8) = Some (Inr [])
   \<and> fst (search stem_short (build stem_short [doc_bb]) ''zz'' 8) = Some (Inr [])"
proof -
  have s: "\<forall>w. w \<noteq> [] \<longrightarrow> stem_short w \<noteq> []" by (simp add: stem_short_def)
  have p: "\<forall>p \<in> set (query_parts ''the and or''). toLowerCase p \<in> set STOP_WORDS"
    by code_simp
  have q: "qTokens stem_short ''zz'' = [''zz'']" by code_simp
  have n: "docIndices (build stem_short [doc_bb]) ''zz'' = None" by code_simp
  have t: "\<forall>t \<in> set (qTokens stem_short ''zz''). docIndices (build stem_short [doc_bb]) t = None"
    by (simp add: q n)
  show ?thesis
    using search_total [of stem_short "[doc_bb, doc_cc]" "''cc bb''" 8] s
          search_total [of stem_short "[doc_bb]" "''the and or''" 8] p
          search_total [of stem_short "[doc_bb]" "''zz''" 8] t
    by blast
qed

subsection \<open>One result for each document\<close>

lemma distinct_map_nth:
  assumes "distinct xs" "distinct is" "\<forall>i \<in> set is. i < length xs"
  shows "distinct (map ((!) xs) is)"
proof -
  have "inj_on ((!) xs) (set is)"
    using assms(1,3) by (auto simp: inj_on_def nth_eq_iff_index_eq)
  then show ?thesis using assms(2) by (simp add: distinct_map)
qed

text \<open>
  Claim C9. The results of \<^verbatim>\<open>search\<close> have pairwise different document positions, all
  of them positions of the index; so when the indexed documents are pairwise different,
  no document is returned twice. (A document inserted twice sits at two positions.)
\<close>

theorem search_results_distinct:
  assumes "\<forall>w. w \<noteq> [] \<longrightarrow> stem w \<noteq> []"
  shows "\<exists>es rs. search_entries stem (build stem ds) query k = Some (Inr es)
           \<and> fst (search stem (build stem ds) query k) = Some (Inr rs)
           \<and> rs = map (\<lambda>(idx, s). \<lparr>score = s, doc = ds ! idx\<rparr>) es
           \<and> distinct (map fst es)
           \<and> (\<forall>e \<in> set es. fst e < length ds)
           \<and> (distinct ds \<longrightarrow> distinct (map doc rs))"
proof -
  obtain acc where acc:
    "map fst acc = first_occurrences (concat (map (postings (build stem ds)) (qTokens stem query)))"
    "search_entries stem (build stem ds) query k = Some (Inr (take k (ranked acc)))"
    using search_entries_build [OF assms] by blast
  define es where "es = take k (ranked acc)"
  define rs where "rs = map (\<lambda>(idx, s). \<lparr>score = s, doc = ds ! idx\<rparr>) es"
  have "distinct (map fst acc)" unfolding acc(1) by (rule distinct_first_occurrences)
  then have "distinct (map fst (ranked acc))"
    by (simp add: ranked_def distinct_map_sort_key)
  then have "distinct (take k (map fst (ranked acc)))" by (rule distinct_take)
  then have d: "distinct (map fst es)" by (simp add: es_def take_map)
  have "set es \<subseteq> set acc" unfolding es_def using set_take_subset [of k "ranked acc"]
    by (simp add: set_ranked)
  then have "fst ` set es \<subseteq> set (map fst acc)" by auto
  then have b: "\<forall>e \<in> set es. fst e < length ds"
    unfolding acc(1) set_first_occurrences using postings_build_bound [of _ stem ds] by auto
  have r: "fst (search stem (build stem ds) query k) = Some (Inr rs)"
    using search_results_of_entries [OF acc(2)] by (simp add: rs_def es_def docs_build)
  have m: "map doc rs = map ((!) ds) (map fst es)"
    by (simp add: rs_def case_prod_beta)
  have "distinct (map doc rs)" if "distinct ds"
    unfolding m using distinct_map_nth [OF that d] b by simp
  then show ?thesis using acc(2) r d b by (auto simp: es_def rs_def)
qed

theorem search_results_distinct_witness:
  "\<exists>es. search_entries stem_short (build stem_short [doc_bb_bb, doc_cc]) ''bb'' 8 = Some (Inr es)
        \<and> distinct (map fst es)
        \<and> postings (build stem_short [doc_bb_bb, doc_cc]) ''bb'' = [0, 0]"
proof -
  have s: "\<forall>w. w \<noteq> [] \<longrightarrow> stem_short w \<noteq> []" by (simp add: stem_short_def)
  have p: "postings (build stem_short [doc_bb_bb, doc_cc]) ''bb'' = [0, 0]" by code_simp
  show ?thesis
    using search_results_distinct [OF s, of "[doc_bb_bb, doc_cc]" "''bb''" 8] p by blast
qed

section \<open>Search on the store\<close>

subsection \<open>What a call changes\<close>

lemma cell_Some_less: "cell h a = Some v \<Longrightarrow> a < length h"
  by (simp add: cell_def split: if_splits)

lemma cell_update: "cell (h[a := v]) b = (if b = a \<and> a < length h then Some v else cell h b)"
  by (simp add: cell_def)

lemma cell_take: "take (length h) h' = h \<Longrightarrow> cell h a = Some v \<Longrightarrow> cell h' a = Some v"
proof -
  assume t: "take (length h) h' = h" and c: "cell h a = Some v"
  from c have a: "a < length h" by (rule cell_Some_less)
  have "length (take (length h) h') = length h" using t by simp
  then have l: "length h \<le> length h'" by simp
  have "take (length h) h' ! a = h' ! a" using a by simp
  then have "h' ! a = h ! a" using t by simp
  then show ?thesis using a c l by (simp add: cell_def)
qed

text \<open>The scorer leaves the store as it is.\<close>

lemma h_calculateBM25Score_store:
  "h_calculateBM25Score this dr token docIdx h = Some (out, h') \<Longrightarrow> h' = h"
  by (auto simp: h_calculateBM25Score_def Let_def split: option.splits obj.splits)

text \<open>The loops change the store at the address of \<open>scores\<close> and nowhere else.\<close>

lemma h_score_indices_frame:
  "h_score_indices this sref qt is h = Some (out, h')
   \<Longrightarrow> length h' = length h \<and> (\<forall>a. a \<noteq> sref \<longrightarrow> cell h' a = cell h a)"
proof (induction "is" arbitrary: h)
  case Nil
  then show ?case by simp
next
  case (Cons idx rest)
  show ?case
  proof (cases "this_docs h this")
    case None
    then show ?thesis using Cons.prems by simp
  next
    case (Some rs)
    show ?thesis
    proof (cases "h_calculateBM25Score this (array_get rs idx) qt idx h")
      case None
      then show ?thesis using Cons.prems Some by simp
    next
      case calc: (Some r)
      obtain o1 h1 where r: "r = (o1, h1)" by (cases r)
      have h1: "h1 = h" using calc r h_calculateBM25Score_store by blast
      show ?thesis
      proof (cases o1)
        case (Inl e)
        then show ?thesis using Cons.prems Some calc r h1 by simp
      next
        case (Inr s)
        show ?thesis
        proof (cases "\<exists>sc. cell h sref = Some (Score_map sc)")
          case True
          then obtain sc where sc: "cell h sref = Some (Score_map sc)" by blast
          let ?h2 = "h[sref := Score_map (scores_set sc idx (scores_get sc idx + s))]"
          have "h_score_indices this sref qt rest ?h2 = Some (out, h')"
            using Cons.prems Some calc r h1 Inr sc by simp
          from Cons.IH [OF this]
          show ?thesis by (simp add: cell_update)
        next
          case False
          then have "h' = h"
            using Cons.prems Some calc r h1 Inr
            by (auto split: option.splits obj.splits)
          then show ?thesis by simp
        qed
      qed
    qed
  qed
qed

lemma h_score_tokens_frame:
  "h_score_tokens this sref qts h = Some (out, h')
   \<Longrightarrow> length h' = length h \<and> (\<forall>a. a \<noteq> sref \<longrightarrow> cell h' a = cell h a)"
proof (induction qts arbitrary: h)
  case Nil
  then show ?case by simp
next
  case (Cons qt rest)
  show ?case
  proof (cases "this_docIndices h this")
    case None
    then show ?thesis using Cons.prems by simp
  next
    case (Some m)
    define ind where "ind = (case m qt of None \<Rightarrow> Some []
        | Some a \<Rightarrow> (case cell h a of Some (Num_array indices) \<Rightarrow> Some indices | _ \<Rightarrow> None))"
    have step: "h_score_tokens this sref (qt # rest) h =
        (case ind of
           None \<Rightarrow> Some (Inl TypeError, h)
         | Some indices \<Rightarrow>
             (case h_score_indices this sref qt indices h of
                None \<Rightarrow> None
              | Some (Inl e, h1) \<Rightarrow> Some (Inl e, h1)
              | Some (Inr u, h1) \<Rightarrow> h_score_tokens this sref rest h1))"
      by (simp add: Some ind_def)
    show ?thesis
    proof (cases ind)
      case None
      then show ?thesis using Cons.prems step by simp
    next
      case ind: (Some indices)
      show ?thesis
      proof (cases "h_score_indices this sref qt indices h")
        case None
        then show ?thesis using Cons.prems step ind by simp
      next
        case inner: (Some r)
        obtain o1 h1 where r: "r = (o1, h1)" by (cases r)
        note f1 = h_score_indices_frame [OF inner [unfolded r]]
        show ?thesis
        proof (cases o1)
          case (Inl e)
          then have "h' = h1" using Cons.prems step ind inner r by simp
          then show ?thesis using f1 by simp
        next
          case (Inr u)
          then have "h_score_tokens this sref rest h1 = Some (out, h')"
            using Cons.prems step ind inner r by simp
          from Cons.IH [OF this] f1 show ?thesis by simp
        qed
      qed
    qed
  qed
qed

lemma h_search_frame:
  assumes "h_search stem this query k h = Some (out, h')"
  shows "take (length h) h' = h"
proof (cases "this_docs h this")
  case None
  then show ?thesis using assms by (simp add: h_search_def)
next
  case (Some rs0)
  show ?thesis
  proof (cases "length rs0 = 0")
    case True
    then show ?thesis using assms Some by (simp add: h_search_def)
  next
    case False
    let ?h1 = "h @ [Score_map []]"
    let ?qs = "tokenize stem query @ generateBigrams (tokenize stem query)"
    obtain o2 h2 where l: "h_score_tokens this (length h) ?qs ?h1 = Some (o2, h2)" and hh: "h' = h2"
      using assms Some False
      by (auto simp: h_search_def Let_def split: option.splits sum.splits obj.splits)
    note f = h_score_tokens_frame [OF l]
    have len: "length h2 = Suc (length h)" using f by simp
    have "h2 ! i = h ! i" if "i < length h" for i
    proof -
      have "cell h2 i = cell ?h1 i" using f that by simp
      then show ?thesis using that len by (simp add: cell_def nth_append)
    qed
    then have "take (length h) h2 = h"
      using len by (intro nth_equalityI) simp_all
    then show ?thesis using hh by simp
  qed
qed

lemma holds_take:
  assumes "holds h this ix" "take (length h) h' = h"
  shows "holds h' this ix"
proof -
  note c = cell_take [OF assms(2)]
  from assms(1) obtain io rs m where h:
    "cell h this = Some (Index_obj io)"
    "cell h (docs_ref io) = Some (Doc_array rs)"
    "map (cell h) rs = map (\<lambda>d. Some (Doc_obj d)) (docs ix)"
    "cell h (docFrequency_ref io) = Some (Freq_map (docFrequency ix))"
    "cell h (docIndices_ref io) = Some (Posting_map m)"
    "\<forall>t. case m t of None \<Rightarrow> docIndices ix t = None
          | Some a \<Rightarrow> (\<exists>indices. cell h a = Some (Num_array indices)
                                \<and> docIndices ix t = Some indices)"
    "cell h (docLengths_ref io) = Some (Num_array (docLengths ix))"
    "avgDocLength_field io = avgDocLength ix"
    unfolding holds_def by blast
  have len: "length rs = length (docs ix)" using h(3) by (metis length_map)
  have "cell h' (rs ! i) = Some (Doc_obj (docs ix ! i))" if "i < length rs" for i
  proof -
    have "map (cell h) rs ! i = map (\<lambda>d. Some (Doc_obj d)) (docs ix) ! i" using h(3) by simp
    then have "cell h (rs ! i) = Some (Doc_obj (docs ix ! i))" using that len by simp
    then show ?thesis by (rule c)
  qed
  then have d: "map (cell h') rs = map (\<lambda>d. Some (Doc_obj d)) (docs ix)"
    using len by (intro nth_equalityI) simp_all
  have p: "\<forall>t. case m t of None \<Rightarrow> docIndices ix t = None
          | Some a \<Rightarrow> (\<exists>indices. cell h' a = Some (Num_array indices)
                                \<and> docIndices ix t = Some indices)"
  proof
    fix t
    show "case m t of None \<Rightarrow> docIndices ix t = None
          | Some a \<Rightarrow> (\<exists>indices. cell h' a = Some (Num_array indices)
                                \<and> docIndices ix t = Some indices)"
      using h(6) [rule_format, of t] c by (cases "m t") auto
  qed
  show ?thesis
    unfolding holds_def
    using c [OF h(1)] c [OF h(2)] d c [OF h(4)] c [OF h(5)] p c [OF h(7)] h(8) by blast
qed


subsection \<open>The same outcome as on the index\<close>

lemma holds_fields:
  assumes "holds h this ix"
  shows "\<exists>rs m.
      this_docs h this = Some rs
    \<and> length rs = length (docs ix)
    \<and> (\<forall>i<length rs. cell h (rs ! i) = Some (Doc_obj (docs ix ! i)))
    \<and> this_docFrequency h this = Some (docFrequency ix)
    \<and> this_docIndices h this = Some m
    \<and> (\<forall>t. case m t of None \<Rightarrow> docIndices ix t = None
          | Some a \<Rightarrow> (\<exists>indices. cell h a = Some (Num_array indices)
                                \<and> docIndices ix t = Some indices))
    \<and> this_docLengths h this = Some (docLengths ix)
    \<and> this_avgDocLength h this = Some (avgDocLength ix)"
proof -
  from assms obtain io rs m where h:
    "cell h this = Some (Index_obj io)"
    "cell h (docs_ref io) = Some (Doc_array rs)"
    "map (cell h) rs = map (\<lambda>d. Some (Doc_obj d)) (docs ix)"
    "cell h (docFrequency_ref io) = Some (Freq_map (docFrequency ix))"
    "cell h (docIndices_ref io) = Some (Posting_map m)"
    "\<forall>t. case m t of None \<Rightarrow> docIndices ix t = None
          | Some a \<Rightarrow> (\<exists>indices. cell h a = Some (Num_array indices)
                                \<and> docIndices ix t = Some indices)"
    "cell h (docLengths_ref io) = Some (Num_array (docLengths ix))"
    "avgDocLength_field io = avgDocLength ix"
    unfolding holds_def by blast
  have len: "length rs = length (docs ix)" using h(3) by (metis length_map)
  have d: "\<forall>i<length rs. cell h (rs ! i) = Some (Doc_obj (docs ix ! i))"
  proof (intro allI impI)
    fix i assume i: "i < length rs"
    have "map (cell h) rs ! i = map (\<lambda>d. Some (Doc_obj d)) (docs ix) ! i" using h(3) by simp
    then show "cell h (rs ! i) = Some (Doc_obj (docs ix ! i))" using i len by simp
  qed
  have "this_docs h this = Some rs" by (simp add: this_docs_def this_obj_def h)
  moreover have "this_docFrequency h this = Some (docFrequency ix)"
    by (simp add: this_docFrequency_def this_obj_def h)
  moreover have "this_docIndices h this = Some m"
    by (simp add: this_docIndices_def this_obj_def h)
  moreover have "this_docLengths h this = Some (docLengths ix)"
    by (simp add: this_docLengths_def this_obj_def h)
  moreover have "this_avgDocLength h this = Some (avgDocLength ix)"
    by (simp add: this_avgDocLength_def this_obj_def h)
  ultimately show ?thesis using len d h(6) by blast
qed

text \<open>On a store that holds the index, the scorer on the store is the scorer on the
  index.\<close>

lemma h_calculateBM25Score_refines:
  assumes "holds h this ix" "this_docs h this = Some rs"
  shows "h_calculateBM25Score this (array_get rs idx) qt idx h =
           (if idx < length (docs ix)
            then map_option (\<lambda>s. (Inr s, h)) (calculateBM25Score ix (docs ix ! idx) qt idx)
            else Some (Inl TypeError, h))"
proof -
  from holds_fields [OF assms(1)] obtain rs' where f:
    "this_docs h this = Some rs'"
    "length rs' = length (docs ix)"
    "\<forall>i<length rs'. cell h (rs' ! i) = Some (Doc_obj (docs ix ! i))"
    "this_docFrequency h this = Some (docFrequency ix)"
    "this_docLengths h this = Some (docLengths ix)"
    "this_avgDocLength h this = Some (avgDocLength ix)"
    by blast
  have rs: "rs' = rs" using f(1) assms(2) by simp
  show ?thesis
  proof (cases "idx < length (docs ix)")
    case False
    then show ?thesis using f(2) rs by (simp add: h_calculateBM25Score_def array_get_def)
  next
    case True
    then have c: "cell h (rs ! idx) = Some (Doc_obj (docs ix ! idx))" using f(2,3) rs by simp
    show ?thesis
    proof (cases "weightedTf (docs ix ! idx) qt")
      case None
      then show ?thesis
        using True f(2) rs c
        by (simp add: h_calculateBM25Score_def array_get_def calculateBM25Score_def)
    next
      case (Some wtf)
      then show ?thesis
        using True f(2) rs c f(4,5,6) assms(2)
        by (simp add: h_calculateBM25Score_def array_get_def calculateBM25Score_def Let_def
            idf_def idf_arg_def tfComponent_def tf_denominator_def docLength_def avgLen_def)
    qed
  qed
qed

lemma holds_append: "holds h this ix \<Longrightarrow> holds (h @ xs) this ix"
  by (erule holds_take) simp

lemma cell_append_length: "cell (h @ [x]) (length h) = Some x"
  by (simp add: cell_def)

text \<open>The loops on the store follow the loops on the index, with the map \<open>scores\<close> in the
  one cell after the store they started from.\<close>

lemma h_score_indices_refines:
  assumes "holds h0 this ix"
  shows "case score_indices ix qt is sc of
           None \<Rightarrow> h_score_indices this (length h0) qt is (h0 @ [Score_map sc]) = None
         | Some (Inl e) \<Rightarrow>
             (\<exists>sc'. h_score_indices this (length h0) qt is (h0 @ [Score_map sc])
                      = Some (Inl e, h0 @ [Score_map sc']))
         | Some (Inr sc') \<Rightarrow>
             h_score_indices this (length h0) qt is (h0 @ [Score_map sc])
               = Some (Inr (), h0 @ [Score_map sc'])"
proof (induction "is" arbitrary: sc)
  case Nil
  then show ?case by simp
next
  case (Cons idx rest)
  let ?h = "h0 @ [Score_map sc]"
  have hh: "holds ?h this ix" using assms by (rule holds_append)
  then obtain rs where rs: "this_docs ?h this = Some rs" using holds_fields by blast
  note calc = h_calculateBM25Score_refines [OF hh rs, of idx qt]
  show ?case
  proof (cases "idx < length (docs ix)")
    case False
    then show ?thesis using rs calc by auto
  next
    case True
    show ?thesis
    proof (cases "calculateBM25Score ix (docs ix ! idx) qt idx")
      case None
      then show ?thesis using True rs calc by simp
    next
      case (Some s)
      let ?sc1 = "scores_set sc idx (scores_get sc idx + s)"
      have step: "h_score_indices this (length h0) qt (idx # rest) ?h
                  = h_score_indices this (length h0) qt rest (h0 @ [Score_map ?sc1])"
        using True rs calc Some by (simp add: cell_append_length)
      have fstep: "score_indices ix qt (idx # rest) sc = score_indices ix qt rest ?sc1"
        using True Some by simp
      show ?thesis unfolding step fstep by (rule Cons.IH)
    qed
  qed
qed

lemma h_score_tokens_refines:
  assumes "holds h0 this ix"
  shows "case score_tokens ix qts sc of
           None \<Rightarrow> h_score_tokens this (length h0) qts (h0 @ [Score_map sc]) = None
         | Some (Inl e) \<Rightarrow>
             (\<exists>sc'. h_score_tokens this (length h0) qts (h0 @ [Score_map sc])
                      = Some (Inl e, h0 @ [Score_map sc']))
         | Some (Inr sc') \<Rightarrow>
             h_score_tokens this (length h0) qts (h0 @ [Score_map sc])
               = Some (Inr (), h0 @ [Score_map sc'])"
proof (induction qts arbitrary: sc)
  case Nil
  then show ?case by simp
next
  case (Cons qt rest)
  let ?h = "h0 @ [Score_map sc]"
  have hh: "holds ?h this ix" using assms by (rule holds_append)
  from holds_fields [OF this] obtain m where m: "this_docIndices ?h this = Some m"
    and p: "\<forall>t. case m t of None \<Rightarrow> docIndices ix t = None
          | Some a \<Rightarrow> (\<exists>indices. cell ?h a = Some (Num_array indices)
                                \<and> docIndices ix t = Some indices)"
    by blast
  have ind: "(case m qt of None \<Rightarrow> Some []
        | Some a \<Rightarrow> (case cell ?h a of Some (Num_array indices) \<Rightarrow> Some indices | _ \<Rightarrow> None))
        = Some (postings ix qt)"
    using p [rule_format, of qt] by (cases "m qt") (auto simp: postings_def)
  have step: "h_score_tokens this (length h0) (qt # rest) ?h =
        (case h_score_indices this (length h0) qt (postings ix qt) ?h of
           None \<Rightarrow> None
         | Some (Inl e, h1) \<Rightarrow> Some (Inl e, h1)
         | Some (Inr u, h1) \<Rightarrow> h_score_tokens this (length h0) rest h1)"
    by (simp add: m ind)
  note inner = h_score_indices_refines [OF assms, of qt "postings ix qt" sc]
  show ?case
  proof (cases "score_indices ix qt (postings ix qt) sc")
    case None
    then show ?thesis using inner unfolding step score_tokens_Cons by simp
  next
    case (Some r)
    show ?thesis
    proof (cases r)
      case (Inl e)
      then show ?thesis using inner Some unfolding step score_tokens_Cons by auto
    next
      case (Inr sc1)
      then have "h_score_indices this (length h0) qt (postings ix qt) ?h
                 = Some (Inr (), h0 @ [Score_map sc1])"
        using inner Some by simp
      then have step2: "h_score_tokens this (length h0) (qt # rest) ?h
                 = h_score_tokens this (length h0) rest (h0 @ [Score_map sc1])"
        unfolding step by simp
      have fstep: "score_tokens ix (qt # rest) sc = score_tokens ix rest sc1"
        unfolding score_tokens_Cons using Some Inr by simp
      show ?thesis unfolding step2 fstep by (rule Cons.IH)
    qed
  qed
qed


lemma score_indices_keys_bound:
  "score_indices ix qt is sc = Some (Inr sc')
   \<Longrightarrow> \<forall>i \<in> set (map fst sc). i < length (docs ix)
   \<Longrightarrow> \<forall>i \<in> set (map fst sc'). i < length (docs ix)"
proof (induction "is" arbitrary: sc)
  case Nil
  then show ?case by simp
next
  case (Cons idx rest)
  from Cons.prems(1) have lt: "idx < length (docs ix)" by (simp split: if_splits)
  from Cons.prems(1) lt obtain s where
    "score_indices ix qt rest (scores_set sc idx (scores_get sc idx + s)) = Some (Inr sc')"
    by (auto split: option.splits)
  moreover have "\<forall>i \<in> set (map fst (scores_set sc idx (scores_get sc idx + s))). i < length (docs ix)"
    using Cons.prems(2) lt by (auto simp: scores_set_keys keys_add_def)
  ultimately show ?case by (rule Cons.IH)
qed

lemma score_tokens_keys_bound:
  "score_tokens ix qts sc = Some (Inr sc')
   \<Longrightarrow> \<forall>i \<in> set (map fst sc). i < length (docs ix)
   \<Longrightarrow> \<forall>i \<in> set (map fst sc'). i < length (docs ix)"
proof (induction qts arbitrary: sc)
  case Nil
  then show ?case by simp
next
  case (Cons qt rest)
  from Cons.prems(1) obtain sc1 where
    a: "score_indices ix qt (postings ix qt) sc = Some (Inr sc1)"
    and b: "score_tokens ix rest sc1 = Some (Inr sc')"
    unfolding score_tokens_Cons by (auto split: option.splits sum.splits)
  have "\<forall>i \<in> set (map fst sc1). i < length (docs ix)"
    using a Cons.prems(2) by (rule score_indices_keys_bound)
  with b show ?case by (rule Cons.IH)
qed

lemma sort_ref_results:
  "sort_key (\<lambda>r. - r_score r) (map (\<lambda>(idx, s). \<lparr>r_score = s, r_doc = array_get rs idx\<rparr>) sc)
     = map (\<lambda>(idx, s). \<lparr>r_score = s, r_doc = array_get rs idx\<rparr>) (ranked sc)"
proof -
  have "(\<lambda>y. - r_score (case y of (idx, s) \<Rightarrow> \<lparr>r_score = s, r_doc = array_get rs idx\<rparr>))
        = (\<lambda>(idx, s). - s)"
    by (simp add: fun_eq_iff)
  then show ?thesis by (simp add: sort_key_map ranked_def)
qed

text \<open>On a store that holds the index, \<^verbatim>\<open>search\<close> on the store has the outcome of
  \<^verbatim>\<open>search\<close> on the index: it returns when that does, throws when that does, and its
  results are the same scores with references to the same documents.\<close>

lemma h_search_refines:
  assumes "holds h this ix"
  shows "case search_results stem ix query k of
           None \<Rightarrow> h_search stem this query k h = None
         | Some (Inl e) \<Rightarrow> (\<exists>h2. h_search stem this query k h = Some (Inl e, h2))
         | Some (Inr rs) \<Rightarrow>
             (\<exists>hrs h2. h_search stem this query k h = Some (Inr hrs, h2)
                      \<and> map (resolve h2) hrs = map Some rs)"
proof -
  from holds_fields [OF assms] obtain rs0 where rs0:
    "this_docs h this = Some rs0" "length rs0 = length (docs ix)"
    by blast
  show ?thesis
  proof (cases "length (docs ix) = 0")
    case True
    then show ?thesis using rs0 by (simp add: search_results_def h_search_def)
  next
    case False
    let ?qs = "qTokens stem query"
    have hs: "h_search stem this query k h =
        (case h_score_tokens this (length h) ?qs (h @ [Score_map []]) of
           None \<Rightarrow> None
         | Some (Inl e, h2) \<Rightarrow> Some (Inl e, h2)
         | Some (Inr u, h2) \<Rightarrow>
             (case cell h2 (length h) of
                Some (Score_map scores) \<Rightarrow>
                  (case this_docs h2 this of
                     None \<Rightarrow> Some (Inl TypeError, h2)
                   | Some rs \<Rightarrow>
                       let ranked = sort_key (\<lambda>r. - r_score r)
                              (map (\<lambda>(idx, s). \<lparr>r_score = s, r_doc = array_get rs idx\<rparr>) scores)
                       in Some (Inr (take k ranked), h2))
              | _ \<Rightarrow> Some (Inl TypeError, h2)))"
      using False rs0 by (simp add: h_search_def Let_def qTokens_def)
    note t = h_score_tokens_refines [OF assms, of ?qs "[]"]
    show ?thesis
    proof (cases "score_tokens ix ?qs []")
      case None
      then show ?thesis using t False unfolding hs by (simp add: search_results_def)
    next
      case (Some r)
      show ?thesis
      proof (cases r)
        case (Inl e)
        then show ?thesis using t Some False unfolding hs by (auto simp: search_results_def)
      next
        case (Inr sc)
        let ?h2 = "h @ [Score_map sc]"
        have l: "h_score_tokens this (length h) ?qs (h @ [Score_map []]) = Some (Inr (), ?h2)"
          using t Some Inr by simp
        have "holds ?h2 this ix" using assms by (rule holds_append)
        from holds_fields [OF this] obtain rs where rs:
          "this_docs ?h2 this = Some rs" "length rs = length (docs ix)"
          "\<forall>i<length rs. cell ?h2 (rs ! i) = Some (Doc_obj (docs ix ! i))"
          by blast
        let ?gh = "\<lambda>(idx, s). \<lparr>r_score = s, r_doc = array_get rs idx\<rparr>"
        let ?g = "\<lambda>(idx, s). \<lparr>score = s, doc = docs ix ! idx\<rparr>"
        let ?es = "take k (ranked sc)"
        have hres: "h_search stem this query k h = Some (Inr (map ?gh ?es), ?h2)"
          unfolding hs l by (simp add: cell_append_length rs(1) sort_ref_results take_map Let_def)
        have fres: "search_results stem ix query k = Some (Inr (map ?g ?es))"
          using False Some Inr by (simp add: search_results_def sort_results take_map)
        have kb: "\<forall>i \<in> set (map fst sc). i < length (docs ix)"
          using score_tokens_keys_bound [of ix ?qs "[]" sc] Some Inr by simp
        have "set ?es \<subseteq> set sc" using set_take_subset [of k "ranked sc"] by (simp add: set_ranked)
        then have eb: "\<forall>e \<in> set ?es. fst e < length rs" using kb rs(2) by auto
        have "map (resolve ?h2) (map ?gh ?es) = map Some (map ?g ?es)"
          unfolding map_map
        proof (rule map_cong [OF refl])
          fix e assume "e \<in> set ?es"
          then have lt: "fst e < length rs" using eb by blast
          then have "cell ?h2 (rs ! fst e) = Some (Doc_obj (docs ix ! fst e))" using rs(3) by blast
          then show "(resolve ?h2 \<circ> ?gh) e = (Some \<circ> ?g) e"
            using lt by (cases e) (simp add: resolve_def array_get_def)
        qed
        then show ?thesis using hres fres by simp
      qed
    qed
  qed
qed

lemma holds_store_bb_cc: "holds store_bb_cc 0 (build stem_short [doc_bb, doc_cc])"
proof -
  let ?ix = "build stem_short [doc_bb, doc_cc]"
  have b: "?ix = add stem_short (add stem_short new_index doc_bb) doc_cc"
    by (simp add: build_def)
  have df: "docFrequency ?ix = [''bb'' \<mapsto> 1, ''cc'' \<mapsto> 1]"
    by (rule ext) (simp add: docFrequency_build facts_bb_cc)
  have di: "docIndices ?ix t =
      (if t = ''cc'' then Some [1] else if t = ''bb'' then Some [0] else None)" for t
    unfolding b
    by (simp add: docIndices_add docs_add facts_bb_cc postings_def new_index_def)
  have p: "\<forall>t. case [''bb'' \<mapsto> 7, ''cc'' \<mapsto> 8] t of
             None \<Rightarrow> docIndices ?ix t = None
           | Some a \<Rightarrow> (\<exists>indices. cell store_bb_cc a = Some (Num_array indices)
                                 \<and> docIndices ?ix t = Some indices)"
    by (simp add: di cell_def store_bb_cc_def)
  have dl: "docLengths ?ix = [1, 1]" by (simp add: docLengths_build facts_bb_cc)
  have av: "avgDocLength ?ix = 1" by (simp add: avgDocLength_build facts_bb_cc)
  show ?thesis
    unfolding holds_def
    apply (rule exI [of _ "\<lparr>docs_ref = 1, docFrequency_ref = 2, docIndices_ref = 3,
                             docLengths_ref = 4, avgDocLength_field = 1\<rparr>"])
    apply (rule exI [of _ "[5, 6]"])
    apply (rule exI [of _ "[''bb'' \<mapsto> 7, ''cc'' \<mapsto> 8]"])
    using p by (simp add: cell_def store_bb_cc_def docs_build df dl av)
qed

subsection \<open>The index after a search\<close>

text \<open>
  Claim C10. A call of \<^verbatim>\<open>search\<close>, whether it returns a list or throws, leaves every
  object that was in the store before the call as it was: the only object it assigns to
  is the map \<open>scores\<close> it has created itself. So a store that holds an index state holds
  the same state after the call: the documents, the posting lists, the document
  frequencies, the recorded lengths and the average length. On such a store the call has
  the outcome that \<^verbatim>\<open>search\<close> has on the index state, with references to the indexed
  documents in the results; and on an index reached by insertions, with a stemmer that
  maps no word to the empty string, the call returns.
\<close>

theorem search_frame:
  "(h_search stem this query k h = Some (out, h')
      \<longrightarrow> take (length h) h' = h \<and> (holds h this ix \<longrightarrow> holds h' this ix))
   \<and> (holds h this ix \<longrightarrow>
        (case fst (search stem ix query k) of
           None \<Rightarrow> h_search stem this query k h = None
         | Some (Inl e) \<Rightarrow> (\<exists>h2. h_search stem this query k h = Some (Inl e, h2))
         | Some (Inr rs) \<Rightarrow>
             (\<exists>hrs h2. h_search stem this query k h = Some (Inr hrs, h2)
                      \<and> map (resolve h2) hrs = map Some rs)))
   \<and> ((\<forall>w. w \<noteq> [] \<longrightarrow> stem w \<noteq> []) \<and> holds h this (build stem ds) \<longrightarrow>
        (\<exists>hrs h2. h_search stem this query k h = Some (Inr hrs, h2)
                 \<and> take (length h) h2 = h
                 \<and> holds h2 this (build stem ds)))"
proof -
  have a: "take (length h) h' = h \<and> (holds h this ix \<longrightarrow> holds h' this ix)"
    if r: "h_search stem this query k h = Some (out, h')"
  proof -
    have "take (length h) h' = h" using r by (rule h_search_frame)
    then show ?thesis using holds_take by blast
  qed
  have b: "case fst (search stem ix query k) of
           None \<Rightarrow> h_search stem this query k h = None
         | Some (Inl e) \<Rightarrow> (\<exists>h2. h_search stem this query k h = Some (Inl e, h2))
         | Some (Inr rs) \<Rightarrow>
             (\<exists>hrs h2. h_search stem this query k h = Some (Inr hrs, h2)
                      \<and> map (resolve h2) hrs = map Some rs)"
    if "holds h this ix"
    using h_search_refines [OF that, of stem query k] by (simp add: search_def)
  have c: "\<exists>hrs h2. h_search stem this query k h = Some (Inr hrs, h2)
                 \<and> take (length h) h2 = h
                 \<and> holds h2 this (build stem ds)"
    if st: "\<forall>w. w \<noteq> [] \<longrightarrow> stem w \<noteq> []" and hd: "holds h this (build stem ds)"
  proof -
    obtain acc where
      "search_entries stem (build stem ds) query k = Some (Inr (take k (ranked acc)))"
      using search_entries_build [OF st] by blast
    then obtain rs where "fst (search stem (build stem ds) query k) = Some (Inr rs)"
      using search_results_of_entries by blast
    then have "search_results stem (build stem ds) query k = Some (Inr rs)"
      by (simp add: search_def)
    then obtain hrs h2 where r: "h_search stem this query k h = Some (Inr hrs, h2)"
      using h_search_refines [OF hd, of stem query k] by auto
    have "take (length h) h2 = h" using r by (rule h_search_frame)
    then show ?thesis using r holds_take [OF hd] by blast
  qed
  show ?thesis using a b c by blast
qed

theorem search_frame_witness:
  "\<exists>hrs h2. h_search stem_short 0 ''cc bb'' 8 store_bb_cc = Some (Inr hrs, h2)
           \<and> take (length store_bb_cc) h2 = store_bb_cc
           \<and> holds h2 0 (build stem_short [doc_bb, doc_cc])"
proof -
  have s: "\<forall>w. w \<noteq> [] \<longrightarrow> stem_short w \<noteq> []" by (simp add: stem_short_def)
  show ?thesis
    using search_frame [where stem = stem_short and this = 0 and h = store_bb_cc
        and ds = "[doc_bb, doc_cc]" and query = "''cc bb''" and k = 8]
      s holds_store_bb_cc
    by blast
qed

end
